theory Spec2Isabelle
  imports Complex_Main "HOL-Library.AList" "HOL-Library.Multiset"
begin

section \<open>The alert store of \<^verbatim>\<open>alert_system.py\<close>\<close>

text \<open>
  An alert is the dictionary built in \<^verbatim>\<open>AlertSystem.add_alert\<close>. The key \<^verbatim>\<open>'id'\<close> is the
  field \<open>alert_id\<close> (\<open>id\<close> is the identity function of HOL); every other field keeps its
  key. Python's unbounded integers are \<open>int\<close>. A price is a Python float, compared with
  \<^verbatim>\<open>>\<close>, \<^verbatim>\<open>>=\<close> and \<^verbatim>\<open><=\<close> only: it is modelled as a real number (no NaN, no infinity).
  \<open>created_at\<close> is the ISO string the code stores.
\<close>

record alert =
  alert_id :: int
  user_id :: int
  coin :: string
  condition :: string
  price :: real
  created_at :: string
  triggered :: bool

text \<open>
  \<^verbatim>\<open>self.alerts\<close> is a dictionary from \<^verbatim>\<open>str(user_id)\<close> to the list of that owner's alerts.
  Python dictionaries iterate in insertion order and the sweep's result follows that order,
  so the dictionary is an association list: \<open>map_of\<close> is \<^verbatim>\<open>dict.get\<close>, \<open>AList.update\<close> is
  item assignment (in place for a key that is present, at the end for a new key). A Python
  dictionary holds a key once: \<open>distinct (map fst al)\<close>.
\<close>

type_synonym buckets = "(string \<times> alert list) list"

record AlertSystem =
  storage_file :: string
  alerts :: buckets
  next_id :: int

subsection \<open>\<^verbatim>\<open>str(user_id)\<close>: the decimal numeral of an integer\<close>

definition digit_char :: "nat \<Rightarrow> char" where
  "digit_char d = ''0123456789'' ! d"

fun str_nat :: "nat \<Rightarrow> string" where
  "str_nat n = (if n < 10 then [digit_char n] else str_nat (n div 10) @ [digit_char (n mod 10)])"

declare str_nat.simps [simp del]

definition str_int :: "int \<Rightarrow> string" where
  "str_int i = (if i < 0 then CHR ''-'' # str_nat (nat (- i)) else str_nat (nat i))"

subsection \<open>\<^verbatim>\<open>add_alert\<close>, \<^verbatim>\<open>get_user_alerts\<close>, \<^verbatim>\<open>remove_alert\<close>\<close>

text \<open>
  \<^verbatim>\<open>add_alert\<close> reads the clock (\<^verbatim>\<open>datetime.now().isoformat()\<close>): the string it gets is the
  argument \<open>now_iso\<close>. The function returns the new store and the new alert's id. The
  task it creates (\<^verbatim>\<open>asyncio.create_task(self.save_alerts())\<close>) runs later and only reads the
  store; it is \<open>save_alerts\<close> below.
\<close>

definition add_alert ::
  "AlertSystem \<Rightarrow> int \<Rightarrow> string \<Rightarrow> string \<Rightarrow> real \<Rightarrow> string \<Rightarrow> AlertSystem \<times> int" where
  "add_alert s uid c cond p now_iso =
     (let new_id = next_id s;
          a = \<lparr>alert_id = new_id, user_id = uid, coin = c, condition = cond, price = p,
               created_at = now_iso, triggered = False\<rparr>;
          key = str_int uid;
          al = (if map_of (alerts s) key = None then AList.update key [] (alerts s) else alerts s);
          user_alerts = (case map_of al key of None \<Rightarrow> [] | Some xs \<Rightarrow> xs)
      in (s\<lparr>alerts := AList.update key (user_alerts @ [a]) al, next_id := next_id s + 1\<rparr>, new_id))"

definition get_user_alerts :: "AlertSystem \<Rightarrow> int \<Rightarrow> alert list" where
  "get_user_alerts s uid = (case map_of (alerts s) (str_int uid) of None \<Rightarrow> [] | Some xs \<Rightarrow> xs)"

text \<open>
  The loop of \<^verbatim>\<open>remove_alert\<close> pops the first alert of the bucket whose id is the one asked
  for and returns at once: \<open>pop_first\<close> is that loop, \<open>None\<close> when it ends without a match.
\<close>

fun pop_first :: "int \<Rightarrow> alert list \<Rightarrow> alert list option" where
  "pop_first i [] = None"
| "pop_first i (a # as) =
     (if alert_id a = i then Some as
      else (case pop_first i as of None \<Rightarrow> None | Some as' \<Rightarrow> Some (a # as')))"

definition remove_alert :: "AlertSystem \<Rightarrow> int \<Rightarrow> int \<Rightarrow> AlertSystem \<times> bool" where
  "remove_alert s uid i =
     (case pop_first i (get_user_alerts s uid) of
        None \<Rightarrow> (s, False)
      | Some xs \<Rightarrow> (s\<lparr>alerts := AList.update (str_int uid) xs (alerts s)\<rparr>, True))"

subsection \<open>The price source: \<^verbatim>\<open>DataFetcher.get_multiple_prices\<close>\<close>

text \<open>
  \<^verbatim>\<open>get_crypto_data\<close> talks to the network (and falls back to random data), so it is an
  input of the model: \<open>src reqs c\<close> is the \<^verbatim>\<open>data['price']\<close> it gives for the symbol \<open>c\<close>
  when \<open>reqs\<close> are the requests made before, \<open>None\<close> when the call or the subscript raises.
  The list of requests made is the state of the fetcher. \<^verbatim>\<open>get_multiple_prices\<close> asks for
  each symbol of its argument in turn and stores 0 where the request raised.
\<close>

type_synonym price_source = "string list \<Rightarrow> string \<Rightarrow> real option"

fun get_multiple_prices ::
  "price_source \<Rightarrow> string list \<Rightarrow> (string \<rightharpoonup> real) \<Rightarrow> string list
     \<Rightarrow> (string \<rightharpoonup> real) \<times> string list" where
  "get_multiple_prices src [] prices reqs = (prices, reqs)"
| "get_multiple_prices src (c # cs) prices reqs =
     get_multiple_prices src cs
       (prices(c \<mapsto> (case src reqs c of None \<Rightarrow> 0 | Some p \<Rightarrow> p))) (reqs @ [c])"

subsection \<open>\<^verbatim>\<open>check_alerts\<close>\<close>

text \<open>
  First loop: \<^verbatim>\<open>coins_to_check\<close> is a Python set; \<open>List.insert\<close> adds a symbol to a list
  that holds none twice. The order in which \<^verbatim>\<open>list(coins_to_check)\<close> gives the symbols is
  not specified by Python; the model takes the list as it is built.
\<close>

fun collect_bucket :: "alert list \<Rightarrow> string list \<Rightarrow> string list" where
  "collect_bucket [] cs = cs"
| "collect_bucket (a # as) cs =
     collect_bucket as (if \<not> triggered a then List.insert (coin a) cs else cs)"

fun collect_coins :: "buckets \<Rightarrow> string list \<Rightarrow> string list" where
  "collect_coins [] cs = cs"
| "collect_coins ((k, xs) # rest) cs = collect_coins rest (collect_bucket xs cs)"

definition coins_to_check :: "buckets \<Rightarrow> string list" where
  "coins_to_check al = collect_coins al []"

text \<open>
  Second loop, one alert: a triggered alert is skipped; otherwise the price is
  \<^verbatim>\<open>current_prices.get(coin, 0)\<close>, and the alert is marked and reported when the price is
  positive and the condition holds. The reported dictionary is the stored one, so it
  carries \<^verbatim>\<open>triggered = True\<close>.
\<close>

definition condition_met :: "alert \<Rightarrow> real \<Rightarrow> bool" where
  "condition_met a current_price =
     (if condition a = ''above'' \<and> current_price \<ge> price a then True
      else if condition a = ''below'' \<and> current_price \<le> price a then True
      else False)"

definition check_alert :: "(string \<rightharpoonup> real) \<Rightarrow> alert \<Rightarrow> alert \<times> (alert \<times> real) list" where
  "check_alert current_prices a =
     (if triggered a then (a, [])
      else let current_price = (case current_prices (coin a) of None \<Rightarrow> 0 | Some p \<Rightarrow> p)
           in if current_price > 0 \<and> condition_met a current_price
              then (a\<lparr>triggered := True\<rparr>, [(a\<lparr>triggered := True\<rparr>, current_price)])
              else (a, []))"

fun check_bucket :: "(string \<rightharpoonup> real) \<Rightarrow> alert list \<Rightarrow> alert list \<times> (alert \<times> real) list" where
  "check_bucket current_prices [] = ([], [])"
| "check_bucket current_prices (a # as) =
     (let (a', t) = check_alert current_prices a;
          (as', ts) = check_bucket current_prices as
      in (a' # as', t @ ts))"

fun check_buckets :: "(string \<rightharpoonup> real) \<Rightarrow> buckets \<Rightarrow> buckets \<times> (alert \<times> real) list" where
  "check_buckets current_prices [] = ([], [])"
| "check_buckets current_prices ((k, xs) # rest) =
     (let (xs', t) = check_bucket current_prices xs;
          (rest', ts) = check_buckets current_prices rest
      in ((k, xs') # rest', t @ ts))"

subsection \<open>\<^verbatim>\<open>_cleanup_triggered_alerts\<close>\<close>

text \<open>
  Times are integers, in microseconds (the resolution of \<^verbatim>\<open>datetime\<close>): \<open>current_time\<close>
  is \<^verbatim>\<open>datetime.now()\<close>, and \<open>fromisoformat\<close> is \<^verbatim>\<open>datetime.fromisoformat\<close>, \<open>None\<close> where it
  raises. \<^verbatim>\<open>total_seconds() < 86400\<close> is the comparison of the difference in microseconds
  with 86400000000. The difference is taken as the source takes it: \<^verbatim>\<open>created_at\<close> minus
  \<^verbatim>\<open>current_time\<close>. The \<^verbatim>\<open>or\<close> of the filter parses the date of a triggered alert only.
\<close>

datatype error = ValueError

definition keep_alert :: "(string \<Rightarrow> int option) \<Rightarrow> int \<Rightarrow> alert \<Rightarrow> error + bool" where
  "keep_alert fromisoformat current_time a =
     (if \<not> triggered a then Inr True
      else (case fromisoformat (created_at a) of
              None \<Rightarrow> Inl ValueError
            | Some c \<Rightarrow> Inr (c - current_time < 86400 * 1000000)))"

fun filter_bucket :: "(string \<Rightarrow> int option) \<Rightarrow> int \<Rightarrow> alert list \<Rightarrow> error + alert list" where
  "filter_bucket fromisoformat current_time [] = Inr []"
| "filter_bucket fromisoformat current_time (a # as) =
     (case keep_alert fromisoformat current_time a of
        Inl e \<Rightarrow> Inl e
      | Inr k \<Rightarrow>
          (case filter_bucket fromisoformat current_time as of
             Inl e \<Rightarrow> Inl e
           | Inr r \<Rightarrow> Inr (if k then a # r else r)))"

text \<open>
  The loop over the buckets replaces each bucket by its filtered list. When a date does
  not parse, the exception leaves the loop: the buckets before are already replaced, this
  one and the ones after are not.
\<close>

fun cleanup_buckets ::
  "(string \<Rightarrow> int option) \<Rightarrow> int \<Rightarrow> buckets \<Rightarrow> buckets \<times> error option" where
  "cleanup_buckets fromisoformat current_time [] = ([], None)"
| "cleanup_buckets fromisoformat current_time ((k, xs) # rest) =
     (case filter_bucket fromisoformat current_time xs of
        Inl e \<Rightarrow> ((k, xs) # rest, Some e)
      | Inr ys \<Rightarrow>
          (let (rest', r) = cleanup_buckets fromisoformat current_time rest
           in ((k, ys) # rest', r)))"

definition cleanup_triggered_alerts ::
  "(string \<Rightarrow> int option) \<Rightarrow> int \<Rightarrow> AlertSystem \<Rightarrow> AlertSystem \<times> error option" where
  "cleanup_triggered_alerts fromisoformat current_time s =
     (let (al, r) = cleanup_buckets fromisoformat current_time (alerts s)
      in (s\<lparr>alerts := al\<rparr>, r))"

text \<open>
  The sweep. Its state is the store and the list of requests made to the price source;
  its outcome is the list it returns, or the exception that leaves it.
\<close>

definition check_alerts ::
  "(string \<Rightarrow> int option) \<Rightarrow> int \<Rightarrow> price_source \<Rightarrow> AlertSystem \<Rightarrow> string list
     \<Rightarrow> AlertSystem \<times> string list \<times> (error + (alert \<times> real) list)" where
  "check_alerts fromisoformat current_time src s reqs =
     (let cs = coins_to_check (alerts s) in
      if cs = [] then (s, reqs, Inr [])
      else
        (let (current_prices, reqs') = get_multiple_prices src cs Map.empty reqs;
             (al, trig) = check_buckets current_prices (alerts s);
             s1 = s\<lparr>alerts := al\<rparr>
         in if trig = [] then (s1, reqs', Inr trig)
            else (case cleanup_triggered_alerts fromisoformat current_time s1 of
                    (s2, None) \<Rightarrow> (s2, reqs', Inr trig)
                  | (s2, Some e) \<Rightarrow> (s2, reqs', Inl e))))"

subsection \<open>\<^verbatim>\<open>save_alerts\<close> and \<^verbatim>\<open>load_alerts\<close>\<close>

text \<open>
  The storage file holds a JSON document. \<^verbatim>\<open>json.dumps\<close> and \<^verbatim>\<open>json.load\<close> are the
  library's: the model keeps the file at the level of the document they write and read,
  an object whose fields \<^verbatim>\<open>alerts\<close> and \<^verbatim>\<open>next_id\<close> may each be absent (\<^verbatim>\<open>data.get\<close> has a
  default for both). A file that is not JSON is \<open>Corrupt\<close>. The file system maps a path to
  what the file holds, \<open>None\<close> where \<^verbatim>\<open>os.path.exists\<close> is false.
\<close>

record document =
  doc_alerts :: "buckets option"
  doc_next_id :: "int option"

datatype file_content = Corrupt | Doc document

type_synonym file_system = "string \<rightharpoonup> file_content"

definition load_alerts :: "file_system \<Rightarrow> AlertSystem \<Rightarrow> AlertSystem" where
  "load_alerts fs s =
     (case fs (storage_file s) of
        None \<Rightarrow> s
      | Some Corrupt \<Rightarrow> s\<lparr>alerts := [], next_id := 1\<rparr>
      | Some (Doc d) \<Rightarrow>
          s\<lparr>alerts := (case doc_alerts d of None \<Rightarrow> [] | Some al \<Rightarrow> al),
            next_id := (case doc_next_id d of None \<Rightarrow> 1 | Some n \<Rightarrow> n)\<rparr>)"

text \<open>The constructor \<^verbatim>\<open>__init__\<close>: an empty store with counter 1, then \<^verbatim>\<open>load_alerts\<close>.\<close>

definition init :: "file_system \<Rightarrow> string \<Rightarrow> AlertSystem" where
  "init fs path = load_alerts fs \<lparr>storage_file = path, alerts = [], next_id = 1\<rparr>"

text \<open>
  \<^verbatim>\<open>save_alerts\<close> catches and logs every exception. Opening the file for writing may fail
  (the file is left as it was), or the write may fail after the file was opened and
  truncated (what is left is not a JSON document), or the document is written.
\<close>

datatype write_outcome = Written | OpenFailed | WriteFailed

definition save_alerts :: "write_outcome \<Rightarrow> AlertSystem \<Rightarrow> file_system \<Rightarrow> file_system" where
  "save_alerts w s fs =
     (case w of
        OpenFailed \<Rightarrow> fs
      | WriteFailed \<Rightarrow> fs(storage_file s \<mapsto> Corrupt)
      | Written \<Rightarrow>
          fs(storage_file s \<mapsto> Doc \<lparr>doc_alerts = Some (alerts s), doc_next_id = Some (next_id s)\<rparr>))"

section \<open>The command \<^verbatim>\<open>set_alert\<close> of \<^verbatim>\<open>bot.py\<close>\<close>

text \<open>
  \<^verbatim>\<open>str.upper\<close> and \<^verbatim>\<open>str.lower\<close> on ASCII text: a letter of the other case is replaced,
  every other character is kept.
\<close>

definition upper_char :: "char \<Rightarrow> char" where
  "upper_char c =
     (case map_of (zip ''abcdefghijklmnopqrstuvwxyz'' ''ABCDEFGHIJKLMNOPQRSTUVWXYZ'') c of
        None \<Rightarrow> c | Some u \<Rightarrow> u)"

definition lower_char :: "char \<Rightarrow> char" where
  "lower_char c =
     (case map_of (zip ''ABCDEFGHIJKLMNOPQRSTUVWXYZ'' ''abcdefghijklmnopqrstuvwxyz'') c of
        None \<Rightarrow> c | Some l \<Rightarrow> l)"

definition upper :: "string \<Rightarrow> string" where
  "upper s = map upper_char s"

definition lower :: "string \<Rightarrow> string" where
  "lower s = map lower_char s"

text \<open>
  The handler answers with a message; the model keeps which one. \<open>parse_float\<close> is
  Python's \<^verbatim>\<open>float\<close> on a string, \<open>None\<close> where it raises \<^verbatim>\<open>ValueError\<close>; \<open>args\<close> is
  \<^verbatim>\<open>context.args\<close> and \<open>uid\<close> is \<^verbatim>\<open>update.effective_user.id\<close>.
\<close>

datatype reply = Usage | BadCondition | BadPrice | AlertSet int

definition set_alert ::
  "(string \<Rightarrow> real option) \<Rightarrow> AlertSystem \<Rightarrow> int \<Rightarrow> string list \<Rightarrow> string
     \<Rightarrow> AlertSystem \<times> reply" where
  "set_alert parse_float s uid args now_iso =
     (if length args < 3 then (s, Usage)
      else
        (let c = upper (args ! 0);
             cond = lower (args ! 1)
         in (case parse_float (args ! 2) of
               None \<Rightarrow> (s, BadPrice)
             | Some p \<Rightarrow>
                 if cond \<notin> set [''above'', ''below''] then (s, BadCondition)
                 else (let (s', new_id) = add_alert s uid c cond p now_iso
                       in (s', AlertSet new_id)))))"

section \<open>Notions used to state the properties\<close>

text \<open>Every alert of the store, bucket after bucket, and one owner's bucket.\<close>

definition all_alerts :: "buckets \<Rightarrow> alert list" where
  "all_alerts al = concat (map snd al)"

definition bucket :: "buckets \<Rightarrow> string \<Rightarrow> alert list" where
  "bucket al k = (case map_of al k of None \<Rightarrow> [] | Some xs \<Rightarrow> xs)"

text \<open>
  The invariant of the ids: no two stored alerts share an id, and every stored id is below
  the counter.
\<close>

definition store_inv :: "AlertSystem \<Rightarrow> bool" where
  "store_inv s =
     (distinct (map alert_id (all_alerts (alerts s))) \<and>
      list_all (\<lambda>a. alert_id a < next_id s) (all_alerts (alerts s)))"

text \<open>A sequence of calls of \<^verbatim>\<open>add_alert\<close>, with the ids they return.\<close>

type_synonym add_call = "int \<times> string \<times> string \<times> real \<times> string"

fun add_many :: "AlertSystem \<Rightarrow> add_call list \<Rightarrow> AlertSystem \<times> int list" where
  "add_many s [] = (s, [])"
| "add_many s ((uid, c, cond, p, t) # calls) =
     (let (s1, i) = add_alert s uid c cond p t;
          (s2, ids) = add_many s1 calls
      in (s2, i # ids))"

text \<open>
  The prices a sweep observes: what \<^verbatim>\<open>get_multiple_prices\<close> returns for the symbols the
  sweep collects.
\<close>

definition observed_prices :: "price_source \<Rightarrow> AlertSystem \<Rightarrow> string list \<Rightarrow> (string \<rightharpoonup> real)" where
  "observed_prices src s reqs =
     fst (get_multiple_prices src (coins_to_check (alerts s)) Map.empty reqs)"

definition price_of :: "(string \<rightharpoonup> real) \<Rightarrow> string \<Rightarrow> real" where
  "price_of current_prices c = (case current_prices c of None \<Rightarrow> 0 | Some p \<Rightarrow> p)"

text \<open>
  A sequence of sweeps, one for each clock reading, as the monitoring loop of \<^verbatim>\<open>bot.py\<close>
  runs them (it logs an exception and goes on): each entry is the store a sweep started
  from and the sweep's outcome.
\<close>

fun run_sweeps ::
  "(string \<Rightarrow> int option) \<Rightarrow> price_source \<Rightarrow> int list \<Rightarrow> AlertSystem \<Rightarrow> string list
     \<Rightarrow> (AlertSystem \<times> (error + (alert \<times> real) list)) list" where
  "run_sweeps fromisoformat src [] s reqs = []"
| "run_sweeps fromisoformat src (t # ts) s reqs =
     (let (s', reqs', out) = check_alerts fromisoformat t src s reqs
      in (s, out) # run_sweeps fromisoformat src ts s' reqs')"

text \<open>
  What a sweep may do to a stored alert: leave it as it is, or set \<open>triggered\<close> from false to
  true. A bucket evolves when its key is kept and each alert it holds afterwards comes in
  that way from an alert it held before.
\<close>

definition evolves :: "alert \<Rightarrow> alert \<Rightarrow> bool" where
  "evolves a a' = (a' = a \<or> (\<not> triggered a \<and> a' = a\<lparr>triggered := True\<rparr>))"

definition bucket_evolves :: "string \<times> alert list \<Rightarrow> string \<times> alert list \<Rightarrow> bool" where
  "bucket_evolves b b' =
     (fst b' = fst b \<and> list_all (\<lambda>a'. list_ex (\<lambda>a. evolves a a') (snd b)) (snd b'))"

text \<open>
  What the cleanup may do to a bucket: remove alerts, never an alert that is not triggered.
\<close>

definition bucket_kept :: "string \<times> alert list \<Rightarrow> string \<times> alert list \<Rightarrow> bool" where
  "bucket_kept b b' =
     (fst b' = fst b \<and> set (snd b') \<subseteq> set (snd b) \<and>
      {a \<in> set (snd b). \<not> triggered a} \<subseteq> set (snd b'))"

text \<open>
  What a sweep does to a bucket after the evaluation: it leaves it, or replaces it by the
  alerts the cleanup's filter keeps.
\<close>

definition bucket_filtered ::
  "(string \<Rightarrow> int option) \<Rightarrow> int \<Rightarrow> string \<times> alert list \<Rightarrow> string \<times> alert list \<Rightarrow> bool" where
  "bucket_filtered fromisoformat current_time b b' =
     (fst b' = fst b \<and>
      (snd b' = snd b \<or>
       snd b' = filter (\<lambda>a. keep_alert fromisoformat current_time a = Inr True) (snd b)))"

text \<open>The symbols of the alerts that are not triggered.\<close>

definition pending_coins :: "buckets \<Rightarrow> string set" where
  "pending_coins al = coin ` {a \<in> set (all_alerts al). \<not> triggered a}"

section \<open>Example stores\<close>

definition btc_above :: alert where
  "btc_above =
     \<lparr>alert_id = 1, user_id = 1, coin = ''BTC'', condition = ''above'', price = 50000,
      created_at = ''2024-01-01T00:00:00'', triggered = False\<rparr>"

definition btc_below :: alert where
  "btc_below =
     \<lparr>alert_id = 2, user_id = 2, coin = ''BTC'', condition = ''below'', price = 50000,
      created_at = ''2024-01-01T00:05:00'', triggered = False\<rparr>"

definition two_owners :: AlertSystem where
  "two_owners =
     \<lparr>storage_file = ''alerts.json'',
      alerts = [(''1'', [btc_above]), (''2'', [btc_below])],
      next_id = 3\<rparr>"

definition three_calls :: "add_call list" where
  "three_calls =
     [(1, ''BTC'', ''above'', 50000, ''2024-01-01T00:00:00''),
      (2, ''BTC'', ''below'', 40000, ''2024-01-01T00:05:00''),
      (1, ''ETH'', ''above'', 3000, ''2024-01-01T00:10:00'')]"

text \<open>
  A clock for the examples: the dates it reads, in microseconds from
  \<^verbatim>\<open>2024-01-01T00:00:00\<close>. Price sources: one that knows BTC only, at a fixed price, and
  one whose BTC price is 49000 at the first request and 52000 afterwards.
\<close>

definition example_clock :: "string \<Rightarrow> int option" where
  "example_clock stamp =
     (if stamp = ''2024-01-01T00:00:00'' then Some 0
      else if stamp = ''2024-01-01T00:05:00'' then Some 300000000
      else if stamp = ''2024-01-01T00:10:00'' then Some 600000000
      else if stamp = ''2024-01-02T00:30:00'' then Some 88200000000
      else None)"

definition btc_only :: "real \<Rightarrow> price_source" where
  "btc_only p reqs c = (if c = ''BTC'' then Some p else None)"

definition btc_rising :: price_source where
  "btc_rising reqs c = (if c = ''BTC'' then Some (if reqs = [] then 49000 else 52000) else None)"

definition eth_above :: alert where
  "eth_above =
     \<lparr>alert_id = 3, user_id = 1, coin = ''ETH'', condition = ''above'', price = 3000,
      created_at = ''2024-01-01T00:10:00'', triggered = False\<rparr>"

definition btc_recent :: alert where
  "btc_recent =
     \<lparr>alert_id = 2, user_id = 1, coin = ''BTC'', condition = ''below'', price = 50000,
      created_at = ''2024-01-02T00:30:00'', triggered = False\<rparr>"

definition btc_high :: alert where
  "btc_high =
     \<lparr>alert_id = 4, user_id = 2, coin = ''BTC'', condition = ''above'', price = 51000,
      created_at = ''2024-01-02T00:30:00'', triggered = False\<rparr>"

definition mixed_store :: AlertSystem where
  "mixed_store =
     \<lparr>storage_file = ''alerts.json'',
      alerts = [(''1'', [btc_above, eth_above]), (''2'', [btc_below])],
      next_id = 4\<rparr>"

definition stale_store :: AlertSystem where
  "stale_store =
     \<lparr>storage_file = ''alerts.json'',
      alerts = [(''1'', [btc_above\<lparr>triggered := True\<rparr>, btc_recent])],
      next_id = 3\<rparr>"

definition staged_store :: AlertSystem where
  "staged_store =
     \<lparr>storage_file = ''alerts.json'',
      alerts = [(''1'', [btc_above\<lparr>triggered := True\<rparr>, btc_recent]), (''2'', [btc_high])],
      next_id = 5\<rparr>"

section \<open>Association lists\<close>

lemma update_present:
  "map_of al k = Some xs \<Longrightarrow>
     \<exists>pre post. al = pre @ (k, xs) # post \<and> k \<notin> fst ` set pre \<and>
        AList.update k v al = pre @ (k, v) # post"
proof (induction al)
  case Nil
  then show ?case by simp
next
  case (Cons p al)
  obtain k' ys where p: "p = (k', ys)" by (cases p)
  show ?case
  proof (cases "k' = k")
    case True
    with Cons.prems p have "ys = xs" by simp
    with True p have "p # al = [] @ (k, xs) # al \<and> k \<notin> fst ` set [] \<and>
        AList.update k v (p # al) = [] @ (k, v) # al" by simp
    then show ?thesis by blast
  next
    case False
    with Cons.prems p have "map_of al k = Some xs" by simp
    from Cons.IH [OF this] obtain pre post where
      h: "al = pre @ (k, xs) # post" "k \<notin> fst ` set pre" "AList.update k v al = pre @ (k, v) # post"
      by blast
    with False p have "p # al = (p # pre) @ (k, xs) # post \<and> k \<notin> fst ` set (p # pre) \<and>
        AList.update k v (p # al) = (p # pre) @ (k, v) # post" by auto
    then show ?thesis by blast
  qed
qed

lemma update_absent: "map_of al k = None \<Longrightarrow> AList.update k v al = al @ [(k, v)]"
  by (induction al) (auto split: if_splits)

lemma update_append_absent:
  "map_of al k = None \<Longrightarrow> AList.update k v (al @ [(k, w)]) = al @ [(k, v)]"
  by (induction al) (auto split: if_splits)

lemma add_alert_result:
  "add_alert s uid c cond p t =
     (s\<lparr>alerts := AList.update (str_int uid)
           (bucket (alerts s) (str_int uid) @
              [\<lparr>alert_id = next_id s, user_id = uid, coin = c, condition = cond, price = p,
                created_at = t, triggered = False\<rparr>]) (alerts s),
        next_id := next_id s + 1\<rparr>, next_id s)"
proof (cases "map_of (alerts s) (str_int uid)")
  case None
  then show ?thesis
    by (simp add: add_alert_def bucket_def Let_def update_absent update_append_absent map_add_def)
next
  case (Some xs)
  then show ?thesis
    by (simp add: add_alert_def bucket_def Let_def)
qed

lemma mset_all_alerts_update:
  "mset (all_alerts (AList.update k (bucket al k @ [a]) al)) = mset (all_alerts al) + {#a#}"
proof (cases "map_of al k")
  case None
  then show ?thesis by (simp add: update_absent all_alerts_def bucket_def)
next
  case (Some xs)
  from update_present [OF Some, of "xs @ [a]"] obtain pre post where
    "al = pre @ (k, xs) # post" "AList.update k (xs @ [a]) al = pre @ (k, xs @ [a]) # post"
    by blast
  with Some show ?thesis by (simp add: all_alerts_def bucket_def)
qed


section \<open>Adding and removing alerts\<close>

lemma get_user_alerts_bucket: "get_user_alerts s uid = bucket (alerts s) (str_int uid)"
  by (simp add: get_user_alerts_def bucket_def)

lemma store_inv_add_alert:
  assumes "store_inv s"
  shows "store_inv (fst (add_alert s uid c cond p t))"
proof -
  let ?a = "\<lparr>alert_id = next_id s, user_id = uid, coin = c, condition = cond, price = p,
                created_at = t, triggered = False\<rparr>"
  let ?al = "AList.update (str_int uid) (bucket (alerts s) (str_int uid) @ [?a]) (alerts s)"
  have m: "mset (all_alerts ?al) = mset (all_alerts (alerts s)) + {#?a#}"
    by (rule mset_all_alerts_update)
  have below: "\<forall>b\<in>set (all_alerts (alerts s)). alert_id b < next_id s"
    using assms by (simp add: store_inv_def list_all_iff)
  have "mset (map alert_id (all_alerts ?al)) = mset (map alert_id (all_alerts (alerts s) @ [?a]))"
    using m by simp
  then have "distinct (map alert_id (all_alerts ?al)) = distinct (map alert_id (all_alerts (alerts s) @ [?a]))"
    by (rule mset_eq_imp_distinct_iff)
  moreover have "distinct (map alert_id (all_alerts (alerts s) @ [?a]))"
    using assms below by (auto simp: store_inv_def)
  ultimately have d: "distinct (map alert_id (all_alerts ?al))" by simp
  have "set (all_alerts ?al) = insert ?a (set (all_alerts (alerts s)))"
    using m by (metis add_mset_add_single set_mset_add_mset_insert set_mset_mset)
  then have "\<forall>b\<in>set (all_alerts ?al). alert_id b < next_id s + 1"
    using below by auto
  with d show ?thesis
    by (simp add: add_alert_result store_inv_def list_all_iff)
qed

lemma add_many_ids:
  "add_many s calls = (s', ids) \<Longrightarrow>
     ids = map (\<lambda>n. next_id s + int n) [0..<length calls] \<and>
     next_id s' = next_id s + int (length calls)"
proof (induction calls arbitrary: s s' ids)
  case Nil
  then show ?case by simp
next
  case (Cons call calls)
  obtain uid c cond p t where call: "call = (uid, c, cond, p, t)" by (cases call)
  obtain s1 where s1: "add_alert s uid c cond p t = (s1, next_id s)" and n1: "next_id s1 = next_id s + 1"
    by (simp add: add_alert_result)
  obtain s2 ids2 where r: "add_many s1 calls = (s2, ids2)" by (cases "add_many s1 calls")
  from Cons.prems call s1 r have e: "s' = s2" "ids = next_id s # ids2" by simp_all
  from Cons.IH [OF r] n1 have
    i2: "ids2 = map (\<lambda>n. next_id s + 1 + int n) [0..<length calls]" and
    n2: "next_id s2 = next_id s + 1 + int (length calls)" by simp_all
  have "map (\<lambda>n. next_id s + int n) [0..<length (call # calls)] =
        next_id s # map (\<lambda>n. next_id s + 1 + int n) [0..<length calls]"
    by (simp add: upt_rec [of 0] map_Suc_upt [symmetric] del: upt_Suc)
  with e i2 n2 show ?case by simp
qed

lemma store_inv_add_many:
  "store_inv s \<Longrightarrow> store_inv (fst (add_many s calls))"
proof (induction calls arbitrary: s)
  case Nil
  then show ?case by simp
next
  case (Cons call calls)
  obtain uid c cond p t where call: "call = (uid, c, cond, p, t)" by (cases call)
  have "store_inv (fst (add_alert s uid c cond p t))"
    using Cons.prems by (rule store_inv_add_alert)
  from Cons.IH [OF this] show ?case
    using call by (simp add: split_beta Let_def)
qed

lemma sorted_wrt_offsets: "sorted_wrt (<) (map (\<lambda>n. (b::int) + int n) [0..<k])"
  by (simp add: sorted_wrt_map sorted_wrt_iff_nth_less)

text \<open>
  C5. The ids returned by a sequence of calls of \<^verbatim>\<open>add_alert\<close>, whoever the owners are, are
  strictly increasing, so pairwise distinct, and each lies between the counter before and
  the counter after. On a store whose ids are distinct and below the counter (the new
  store is one, and the calls keep it so) the stored ids stay pairwise distinct and no
  returned id is the id of an alert stored before.
\<close>

theorem add_alert_ids_strictly_increasing:
  assumes "add_many s calls = (s', ids)"
  shows "sorted_wrt (<) ids \<and> distinct ids \<and> list_all (\<lambda>i. next_id s \<le> i \<and> i < next_id s') ids \<and>
         (store_inv s \<longrightarrow>
            store_inv s' \<and> distinct (map alert_id (all_alerts (alerts s'))) \<and>
            set ids \<inter> alert_id ` set (all_alerts (alerts s)) = {})"
proof -
  from add_many_ids [OF assms] have
    ids: "ids = map (\<lambda>n. next_id s + int n) [0..<length calls]" and
    n: "next_id s' = next_id s + int (length calls)" by simp_all
  have s: "sorted_wrt (<) ids" unfolding ids by (rule sorted_wrt_offsets)
  then have d: "distinct ids" by (simp add: strict_sorted_iff)
  have r: "list_all (\<lambda>i. next_id s \<le> i \<and> i < next_id s') ids"
    by (auto simp: ids n list_all_iff)
  have "store_inv s' \<and> distinct (map alert_id (all_alerts (alerts s'))) \<and>
        set ids \<inter> alert_id ` set (all_alerts (alerts s)) = {}" if inv: "store_inv s"
  proof -
    have "store_inv s'" using store_inv_add_many [OF inv, of calls] assms by simp
    moreover from this have "distinct (map alert_id (all_alerts (alerts s')))"
      by (simp add: store_inv_def)
    moreover have "set ids \<inter> alert_id ` set (all_alerts (alerts s)) = {}"
      using inv r by (fastforce simp: store_inv_def list_all_iff)
    ultimately show ?thesis by simp
  qed
  with s d r show ?thesis by simp
qed


lemma pop_first_None: "pop_first i xs = None \<longleftrightarrow> i \<notin> alert_id ` set xs"
  by (induction xs) (auto split: option.splits)

lemma pop_first_Some:
  "pop_first i xs = Some zs \<Longrightarrow>
     \<exists>pre a post. xs = pre @ a # post \<and> alert_id a = i \<and> i \<notin> alert_id ` set pre \<and> zs = pre @ post"
proof (induction xs arbitrary: zs)
  case Nil
  then show ?case by simp
next
  case (Cons x xs)
  show ?case
  proof (cases "alert_id x = i")
    case True
    with Cons.prems have "x # xs = [] @ x # zs \<and> alert_id x = i \<and> i \<notin> alert_id ` set [] \<and> zs = [] @ zs"
      by simp
    then show ?thesis by blast
  next
    case False
    with Cons.prems obtain zs' where z: "pop_first i xs = Some zs'" "zs = x # zs'"
      by (auto split: option.splits)
    from Cons.IH [OF z(1)] obtain pre a post where
      "xs = pre @ a # post" "alert_id a = i" "i \<notin> alert_id ` set pre" "zs' = pre @ post" by blast
    with False z(2) have "x # xs = (x # pre) @ a # post \<and> alert_id a = i \<and>
        i \<notin> alert_id ` set (x # pre) \<and> zs = (x # pre) @ post" by auto
    then show ?thesis by blast
  qed
qed

lemma bucket_update_same: "bucket (AList.update k v al) k = v"
  by (simp add: bucket_def update_conv')

lemma map_fst_update_present:
  "map_of al k = Some xs \<Longrightarrow> map fst (AList.update k v al) = map fst al"
  by (induction al) (auto split: if_splits)

text \<open>
  C6. \<^verbatim>\<open>remove_alert(user_id, alert_id)\<close> returns true exactly when the owner's bucket holds
  an alert with that id. When it returns false the whole store is unchanged, also when
  the id is that of another owner's alert. When it returns true, the first alert with
  that id has left the owner's bucket and nothing else has changed: every other bucket,
  the keys, the counter and the file name are as before.
\<close>

theorem remove_alert_owner_isolation:
  assumes "remove_alert s uid i = (s', r)"
  shows "(r \<longleftrightarrow> i \<in> alert_id ` set (get_user_alerts s uid)) \<and>
         (\<not> r \<longrightarrow> s' = s) \<and>
         (r \<longrightarrow> (\<exists>pre a post. get_user_alerts s uid = pre @ a # post \<and> alert_id a = i \<and>
                   i \<notin> alert_id ` set pre \<and> get_user_alerts s' uid = pre @ post)) \<and>
         (\<forall>k. k \<noteq> str_int uid \<longrightarrow> map_of (alerts s') k = map_of (alerts s) k) \<and>
         map fst (alerts s') = map fst (alerts s) \<and>
         next_id s' = next_id s \<and> storage_file s' = storage_file s"
proof (cases "pop_first i (get_user_alerts s uid)")
  case None
  with assms have "s' = s" "\<not> r" by (simp_all add: remove_alert_def)
  moreover from None have "i \<notin> alert_id ` set (get_user_alerts s uid)"
    by (simp add: pop_first_None)
  ultimately show ?thesis by simp
next
  case (Some zs)
  with assms have s': "s' = s\<lparr>alerts := AList.update (str_int uid) zs (alerts s)\<rparr>" and r: "r"
    by (simp_all add: remove_alert_def)
  from pop_first_Some [OF Some] obtain pre a post where
    p: "get_user_alerts s uid = pre @ a # post" "alert_id a = i" "i \<notin> alert_id ` set pre"
       "zs = pre @ post" by blast
  from p(1) obtain xs where xs: "map_of (alerts s) (str_int uid) = Some xs"
    by (cases "map_of (alerts s) (str_int uid)") (auto simp: get_user_alerts_def)
  have "get_user_alerts s' uid = pre @ post"
    by (simp add: s' get_user_alerts_bucket bucket_update_same p(4))
  with p have "\<exists>pre a post. get_user_alerts s uid = pre @ a # post \<and> alert_id a = i \<and>
                   i \<notin> alert_id ` set pre \<and> get_user_alerts s' uid = pre @ post" by blast
  moreover have "i \<in> alert_id ` set (get_user_alerts s uid)" using p by auto
  moreover have "\<forall>k. k \<noteq> str_int uid \<longrightarrow> map_of (alerts s') k = map_of (alerts s) k"
    by (simp add: s' update_conv')
  moreover have "map fst (alerts s') = map fst (alerts s)"
    by (simp add: s' map_fst_update_present [OF xs])
  ultimately show ?thesis using r by (simp add: s')
qed

lemma str_int_1: "str_int 1 = ''1''" by code_simp
lemma str_int_2: "str_int 2 = ''2''" by code_simp

theorem remove_alert_owner_isolation_witness:
  "remove_alert two_owners 1 2 = (two_owners, False) \<and>
   snd (remove_alert two_owners 2 2) = True \<and>
   map_of (alerts (fst (remove_alert two_owners 2 2))) ''1'' = map_of (alerts two_owners) ''1'' \<and>
   get_user_alerts (fst (remove_alert two_owners 2 2)) 2 = []"
proof -
  have e: "remove_alert two_owners 2 2 = (fst (remove_alert two_owners 2 2), snd (remove_alert two_owners 2 2))"
    by simp
  have f: "remove_alert two_owners 1 2 = (two_owners, False)"
    by (simp add: remove_alert_def get_user_alerts_def two_owners_def btc_above_def btc_below_def
        str_int_1)
  from remove_alert_owner_isolation [OF e] remove_alert_owner_isolation [OF f] show ?thesis
    by (simp add: remove_alert_def get_user_alerts_def two_owners_def btc_above_def btc_below_def
        str_int_1 str_int_2)
qed

theorem add_alert_ids_strictly_increasing_witness:
  "snd (add_many (init Map.empty ''alerts.json'') three_calls) = [1, 2, 3] \<and>
   store_inv (init Map.empty ''alerts.json'') \<and>
   store_inv (fst (add_many (init Map.empty ''alerts.json'') three_calls)) \<and>
   sorted_wrt (<) (snd (add_many (init Map.empty ''alerts.json'') three_calls))"
proof -
  let ?s = "init Map.empty ''alerts.json''"
  have e: "add_many ?s three_calls = (fst (add_many ?s three_calls), snd (add_many ?s three_calls))"
    by simp
  have i: "store_inv ?s"
    by (simp add: store_inv_def init_def load_alerts_def all_alerts_def)
  have v: "snd (add_many ?s three_calls) = [1, 2, 3]"
    by (simp add: three_calls_def init_def load_alerts_def add_alert_def str_int_1 str_int_2 split_beta)
  from add_alert_ids_strictly_increasing [OF e] i v show ?thesis by simp
qed

section \<open>Persistence\<close>

text \<open>
  C4. When \<^verbatim>\<open>save_alerts\<close> writes its document, a new store built on the same storage file
  (\<^verbatim>\<open>__init__\<close>, which calls \<^verbatim>\<open>load_alerts\<close>) is the store that was saved: the same buckets
  under the same keys in the same order, each alert with all its fields, and the same
  counter.
\<close>

theorem save_then_load_roundtrip:
  "init (save_alerts Written s fs) (storage_file s) = s"
  by (simp add: init_def load_alerts_def save_alerts_def)

lemma load_alerts_missing: "fs path = None \<Longrightarrow> init fs path = \<lparr>storage_file = path, alerts = [], next_id = 1\<rparr>"
  by (simp add: init_def load_alerts_def)

lemma load_alerts_corrupt: "fs path = Some Corrupt \<Longrightarrow> init fs path = \<lparr>storage_file = path, alerts = [], next_id = 1\<rparr>"
  by (simp add: init_def load_alerts_def)

section \<open>The symbol of a new alert\<close>

lemma last_user_alert_added:
  "get_user_alerts (fst (add_alert s uid c cond p t)) uid =
     get_user_alerts s uid @
       [\<lparr>alert_id = next_id s, user_id = uid, coin = c, condition = cond, price = p,
         created_at = t, triggered = False\<rparr>]"
  by (simp add: add_alert_result get_user_alerts_bucket bucket_update_same)

text \<open>
  C2, as stated, fails: \<^verbatim>\<open>add_alert\<close> called with the symbol \<^verbatim>\<open>btc\<close> stores \<^verbatim>\<open>btc\<close>, which
  is not its uppercase form.
\<close>

theorem add_alert_symbol_counterexample:
  "coin (last (get_user_alerts
      (fst (add_alert (init Map.empty ''alerts.json'') 1 ''btc'' ''above'' 50000
              ''2024-01-01T00:00:00'')) 1)) \<noteq> upper ''btc''"
  by (simp add: last_user_alert_added upper_def upper_char_def)

text \<open>
  C2, amended. \<^verbatim>\<open>add_alert\<close> stores the symbol exactly as it is passed. The uppercase
  form is taken by the command handler \<^verbatim>\<open>set_alert\<close> before it calls \<^verbatim>\<open>add_alert\<close>: every
  alert it sets stores the uppercase form of the symbol the user typed.
\<close>

theorem symbol_uppercased_by_set_alert:
  "coin (last (get_user_alerts (fst (add_alert s uid c cond p t)) uid)) = c \<and>
   (\<forall>s' i. set_alert parse_float s uid args t = (s', AlertSet i) \<longrightarrow>
      coin (last (get_user_alerts s' uid)) = upper (args ! 0))"
proof -
  have "coin (last (get_user_alerts (fst (add_alert s uid c cond p t)) uid)) = c"
    by (simp add: last_user_alert_added)
  moreover have "coin (last (get_user_alerts s' uid)) = upper (args ! 0)"
    if h: "set_alert parse_float s uid args t = (s', AlertSet i)" for s' i
  proof -
    from h obtain p where
      "s' = fst (add_alert s uid (upper (args ! 0)) (lower (args ! 1)) p t)"
      by (auto simp: set_alert_def Let_def split_beta split: if_splits option.splits)
    then show ?thesis by (simp add: last_user_alert_added)
  qed
  ultimately show ?thesis by blast
qed

theorem symbol_uppercased_by_set_alert_witness:
  "set_alert (\<lambda>x. if x = ''50000'' then Some 50000 else None) (init Map.empty ''alerts.json'') 1
      [''btc'', ''Above'', ''50000''] ''2024-01-01T00:00:00'' =
     (fst (add_alert (init Map.empty ''alerts.json'') 1 ''BTC'' ''above'' 50000 ''2024-01-01T00:00:00''),
      AlertSet 1) \<and>
   coin (last (get_user_alerts
     (fst (add_alert (init Map.empty ''alerts.json'') 1 ''BTC'' ''above'' 50000 ''2024-01-01T00:00:00'')) 1))
     = ''BTC''"
proof -
  let ?pf = "\<lambda>x. if x = ''50000'' then Some (50000::real) else None"
  let ?s = "init Map.empty ''alerts.json''"
  let ?s' = "fst (add_alert ?s 1 ''BTC'' ''above'' 50000 ''2024-01-01T00:00:00'')"
  have e: "set_alert ?pf ?s 1 [''btc'', ''Above'', ''50000''] ''2024-01-01T00:00:00'' = (?s', AlertSet 1)"
    by (simp add: set_alert_def upper_def upper_char_def lower_def lower_char_def add_alert_result
        init_def load_alerts_def)
  have u: "upper ''btc'' = ''BTC''" by (simp add: upper_def upper_char_def)
  from symbol_uppercased_by_set_alert [of ?s 1 "''BTC''" "''above''" 50000 "''2024-01-01T00:00:00''" ?pf
      "[''btc'', ''Above'', ''50000'']"] e u
  show ?thesis by simp
qed

section \<open>The sweep\<close>

subsection \<open>The symbols collected\<close>

lemma set_collect_bucket:
  "set (collect_bucket xs cs) = set cs \<union> coin ` {a \<in> set xs. \<not> triggered a}"
  by (induction xs arbitrary: cs) auto

lemma distinct_collect_bucket: "distinct cs \<Longrightarrow> distinct (collect_bucket xs cs)"
  by (induction xs arbitrary: cs) auto

lemma set_collect_coins:
  "set (collect_coins al cs) = set cs \<union> pending_coins al"
proof (induction al arbitrary: cs)
  case Nil
  then show ?case by (simp add: pending_coins_def all_alerts_def)
next
  case (Cons b al)
  obtain k xs where b: "b = (k, xs)" by (cases b)
  have "pending_coins (b # al) = coin ` {a \<in> set xs. \<not> triggered a} \<union> pending_coins al"
    by (auto simp: b pending_coins_def all_alerts_def)
  then show ?case by (auto simp: b Cons.IH set_collect_bucket)
qed

lemma distinct_collect_coins: "distinct cs \<Longrightarrow> distinct (collect_coins al cs)"
proof (induction al arbitrary: cs)
  case Nil
  then show ?case by simp
next
  case (Cons b al)
  obtain k xs where b: "b = (k, xs)" by (cases b)
  from Cons.prems have "distinct (collect_bucket xs cs)" by (rule distinct_collect_bucket)
  then show ?case by (simp add: b Cons.IH)
qed

lemma set_coins_to_check: "set (coins_to_check al) = pending_coins al"
  by (simp add: coins_to_check_def set_collect_coins)

lemma distinct_coins_to_check: "distinct (coins_to_check al)"
  by (simp add: coins_to_check_def distinct_collect_coins)

subsection \<open>The prices requested\<close>

lemma get_multiple_prices_requests:
  "snd (get_multiple_prices src cs prices reqs) = reqs @ cs"
  by (induction cs arbitrary: prices reqs) auto

lemma get_multiple_prices_other:
  "c \<notin> set cs \<Longrightarrow> fst (get_multiple_prices src cs prices reqs) c = prices c"
  by (induction cs arbitrary: prices reqs) auto

lemma get_multiple_prices_asked:
  "c \<in> set cs \<Longrightarrow> distinct cs \<Longrightarrow>
     fst (get_multiple_prices src cs prices reqs) c =
       Some (case src (reqs @ takeWhile (\<lambda>x. x \<noteq> c) cs) c of None \<Rightarrow> 0 | Some p \<Rightarrow> p)"
proof (induction cs arbitrary: prices reqs)
  case Nil
  then show ?case by simp
next
  case (Cons x cs)
  show ?case
  proof (cases "x = c")
    case True
    with Cons.prems have "c \<notin> set cs" by simp
    then show ?thesis using True by (simp add: get_multiple_prices_other)
  next
    case False
    with Cons.prems have "c \<in> set cs" "distinct cs" by simp_all
    from Cons.IH [OF this] show ?thesis using False by simp
  qed
qed

subsection \<open>The evaluation loop\<close>

lemma check_bucket_eq:
  "check_bucket prices xs =
     (map (\<lambda>a. fst (check_alert prices a)) xs, concat (map (\<lambda>a. snd (check_alert prices a)) xs))"
  by (induction xs) (simp_all add: split_beta)

lemma check_buckets_eq:
  "check_buckets prices al =
     (map (\<lambda>(k, xs). (k, map (\<lambda>a. fst (check_alert prices a)) xs)) al,
      concat (map (\<lambda>a. snd (check_alert prices a)) (all_alerts al)))"
  by (induction al) (auto simp: split_beta check_bucket_eq all_alerts_def)

lemma in_check_alert:
  "(b, p) \<in> set (snd (check_alert prices a)) \<longleftrightarrow>
     \<not> triggered a \<and> b = a\<lparr>triggered := True\<rparr> \<and> p = price_of prices (coin a) \<and> p > 0 \<and>
     condition_met a p"
  by (auto simp: check_alert_def price_of_def Let_def)

lemma evolves_check_alert: "evolves a (fst (check_alert prices a))"
  by (simp add: check_alert_def evolves_def Let_def)

lemma check_alert_skipped:
  "\<not> triggered a \<Longrightarrow> price_of prices (coin a) \<le> 0 \<Longrightarrow> check_alert prices a = (a, [])"
  by (simp add: check_alert_def price_of_def Let_def)

lemma in_check_buckets:
  "(b, p) \<in> set (snd (check_buckets prices al)) \<longleftrightarrow>
     (\<exists>a \<in> set (all_alerts al). \<not> triggered a \<and> b = a\<lparr>triggered := True\<rparr> \<and>
        p = price_of prices (coin a) \<and> p > 0 \<and> condition_met a p)"
  by (auto simp: check_buckets_eq in_check_alert)

lemma check_buckets_none_pending:
  assumes "pending_coins al = {}"
  shows "check_buckets prices al = (al, [])"
proof -
  have t: "\<forall>a \<in> set (all_alerts al). triggered a"
    using assms by (auto simp: pending_coins_def)
  then have "\<forall>b \<in> set al. \<forall>a \<in> set (snd b). check_alert prices a = (a, [])"
    by (auto simp: all_alerts_def check_alert_def)
  then have "map (\<lambda>(k, xs). (k, map (\<lambda>a. fst (check_alert prices a)) xs)) al = al"
    by (induction al) (auto simp: map_idI)
  moreover have "concat (map (\<lambda>a. snd (check_alert prices a)) (all_alerts al)) = []"
    using t by (auto simp: check_alert_def)
  ultimately show ?thesis by (simp add: check_buckets_eq)
qed

subsection \<open>The cleanup\<close>

lemma filter_bucket_Inr:
  "filter_bucket f t xs = Inr ys \<Longrightarrow> ys = filter (\<lambda>a. keep_alert f t a = Inr True) xs"
proof (induction xs arbitrary: ys)
  case Nil
  then show ?case by simp
next
  case (Cons a xs)
  from Cons.prems obtain k r where
    k: "keep_alert f t a = Inr k" and r: "filter_bucket f t xs = Inr r" and
    ys: "ys = (if k then a # r else r)"
    by (auto split: sum.splits)
  from Cons.IH [OF r] k ys show ?case by auto
qed

lemma keep_alert_pending: "\<not> triggered a \<Longrightarrow> keep_alert f t a = Inr True"
  by (simp add: keep_alert_def)

lemma cleanup_buckets_kept:
  "cleanup_buckets f t al = (al', r) \<Longrightarrow> list_all2 bucket_kept al al'"
proof (induction al arbitrary: al' r)
  case Nil
  then show ?case by simp
next
  case (Cons b al)
  obtain k xs where b: "b = (k, xs)" by (cases b)
  have same: "list_all2 bucket_kept zs zs" for zs
    by (rule list_all2_refl) (simp add: bucket_kept_def)
  show ?case
  proof (cases "filter_bucket f t xs")
    case (Inl e)
    with Cons.prems b have "al' = b # al" by simp
    then show ?thesis using same [of "b # al"] by simp
  next
    case (Inr ys)
    obtain rest' r' where c: "cleanup_buckets f t al = (rest', r')"
      by (cases "cleanup_buckets f t al")
    with Cons.prems b Inr have al': "al' = (k, ys) # rest'" by simp
    from filter_bucket_Inr [OF Inr] have "bucket_kept (k, xs) (k, ys)"
      by (auto simp: bucket_kept_def keep_alert_pending)
    with Cons.IH [OF c] show ?thesis by (simp add: al' b)
  qed
qed

lemma cleanup_buckets_returns:
  "cleanup_buckets f t al = (al', None) \<Longrightarrow>
     al' = map (\<lambda>(k, xs). (k, filter (\<lambda>a. keep_alert f t a = Inr True) xs)) al"
proof (induction al arbitrary: al')
  case Nil
  then show ?case by simp
next
  case (Cons b al)
  obtain k xs where b: "b = (k, xs)" by (cases b)
  from Cons.prems b obtain ys rest' where
    ys: "filter_bucket f t xs = Inr ys" and c: "cleanup_buckets f t al = (rest', None)" and
    al': "al' = (k, ys) # rest'"
    by (auto split: sum.splits prod.splits)
  from Cons.IH [OF c] filter_bucket_Inr [OF ys] show ?case by (simp add: al' b)
qed

subsection \<open>The sweep, phase by phase\<close>

lemma check_alerts_nothing_pending:
  "coins_to_check (alerts s) = [] \<Longrightarrow> check_alerts f t src s reqs = (s, reqs, Inr [])"
  by (simp add: check_alerts_def)

lemma check_alerts_pending:
  assumes "coins_to_check (alerts s) \<noteq> []"
  shows "check_alerts f t src s reqs =
     (let trig = snd (check_buckets (observed_prices src s reqs) (alerts s));
          s1 = s\<lparr>alerts := fst (check_buckets (observed_prices src s reqs) (alerts s))\<rparr>;
          reqs' = reqs @ coins_to_check (alerts s)
      in if trig = [] then (s1, reqs', Inr trig)
         else (case snd (cleanup_triggered_alerts f t s1) of
                 None \<Rightarrow> (fst (cleanup_triggered_alerts f t s1), reqs', Inr trig)
               | Some e \<Rightarrow> (fst (cleanup_triggered_alerts f t s1), reqs', Inl e)))"
  using assms
  by (simp add: check_alerts_def observed_prices_def Let_def split_beta
      get_multiple_prices_requests split: option.splits)

lemma check_alerts_requests:
  "check_alerts f t src s reqs = (s', reqs', out) \<Longrightarrow> reqs' = reqs @ coins_to_check (alerts s)"
proof (cases "coins_to_check (alerts s) = []")
  case True
  assume "check_alerts f t src s reqs = (s', reqs', out)"
  with True show ?thesis by (simp add: check_alerts_nothing_pending)
next
  case False
  assume "check_alerts f t src s reqs = (s', reqs', out)"
  with False show ?thesis
    by (auto simp: check_alerts_pending Let_def split: if_splits option.splits)
qed

lemma check_alerts_returned:
  assumes "check_alerts f t src s reqs = (s', reqs', Inr res)"
  shows "res = snd (check_buckets (observed_prices src s reqs) (alerts s))"
proof (cases "coins_to_check (alerts s) = []")
  case True
  then have "pending_coins (alerts s) = {}"
    using set_coins_to_check [of "alerts s"] by simp
  then have "check_buckets (observed_prices src s reqs) (alerts s) = (alerts s, [])"
    by (rule check_buckets_none_pending)
  with True assms show ?thesis by (simp add: check_alerts_nothing_pending)
next
  case False
  with assms show ?thesis
    by (auto simp: check_alerts_pending Let_def split: if_splits option.splits)
qed

lemma check_alerts_store:
  assumes "check_alerts f t src s reqs = (s', reqs', out)"
  shows "\<exists>al. list_all2 bucket_kept (fst (check_buckets (observed_prices src s reqs) (alerts s))) al \<and>
           s' = s\<lparr>alerts := al\<rparr>"
proof -
  let ?cb = "check_buckets (observed_prices src s reqs) (alerts s)"
  have same: "list_all2 bucket_kept zs zs" for zs
    by (rule list_all2_refl) (simp add: bucket_kept_def)
  show ?thesis
  proof (cases "coins_to_check (alerts s) = []")
    case True
    then have "pending_coins (alerts s) = {}"
      using set_coins_to_check [of "alerts s"] by simp
    then have "?cb = (alerts s, [])" by (rule check_buckets_none_pending)
    moreover from True assms have "s' = s" by (simp add: check_alerts_nothing_pending)
    ultimately have "list_all2 bucket_kept (fst ?cb) (alerts s) \<and> s' = s\<lparr>alerts := alerts s\<rparr>"
      by (simp add: same)
    then show ?thesis by blast
  next
    case False
    show ?thesis
    proof (cases "snd ?cb = []")
      case True
      with False assms have "s' = s\<lparr>alerts := fst ?cb\<rparr>"
        by (simp add: check_alerts_pending Let_def)
      with same [of "fst ?cb"] show ?thesis by blast
    next
      case nonempty: False
      let ?s1 = "s\<lparr>alerts := fst ?cb\<rparr>"
      obtain al r where c: "cleanup_buckets f t (fst ?cb) = (al, r)"
        by (cases "cleanup_buckets f t (fst ?cb)")
      then have "fst (cleanup_triggered_alerts f t ?s1) = s\<lparr>alerts := al\<rparr>"
        by (simp add: cleanup_triggered_alerts_def)
      with False nonempty assms have "s' = s\<lparr>alerts := al\<rparr>"
        by (auto simp: check_alerts_pending Let_def split: option.splits)
      with cleanup_buckets_kept [OF c] show ?thesis by blast
    qed
  qed
qed

subsection \<open>Frame\<close>

lemma kept_after_check_evolves:
  assumes "bucket_kept (fst b, map (\<lambda>a. fst (check_alert prices a)) (snd b)) b'"
  shows "bucket_evolves b b'"
proof -
  have "\<exists>a \<in> set (snd b). evolves a a'" if "a' \<in> set (snd b')" for a'
  proof -
    from that assms obtain a where "a \<in> set (snd b)" "a' = fst (check_alert prices a)"
      by (auto simp: bucket_kept_def)
    then show ?thesis using evolves_check_alert [of a prices] by blast
  qed
  with assms show ?thesis
    by (simp add: bucket_evolves_def bucket_kept_def list_all_iff list_ex_iff)
qed

lemma sweep_frame:
  assumes "check_alerts f t src s reqs = (s', reqs', out)"
  shows "list_all2 bucket_evolves (alerts s) (alerts s') \<and> next_id s' = next_id s \<and>
         storage_file s' = storage_file s"
proof -
  let ?prices = "observed_prices src s reqs"
  from check_alerts_store [OF assms] obtain al where
    k: "list_all2 bucket_kept (fst (check_buckets ?prices (alerts s))) al" and s': "s' = s\<lparr>alerts := al\<rparr>"
    by blast
  from k have "list_all2 (\<lambda>b. bucket_kept (fst b, map (\<lambda>a. fst (check_alert ?prices a)) (snd b)))
      (alerts s) al"
    by (simp add: check_buckets_eq list_all2_map1 split_beta)
  then have "list_all2 bucket_evolves (alerts s) al"
    by (rule list_all2_mono) (rule kept_after_check_evolves)
  with s' show ?thesis by simp
qed

lemma sweep_frame_alerts:
  assumes "check_alerts f t src s reqs = (s', reqs', out)" and "a' \<in> set (all_alerts (alerts s'))"
  shows "\<exists>a \<in> set (all_alerts (alerts s)). evolves a a'"
proof -
  from assms(2) obtain b' where b': "b' \<in> set (alerts s')" "a' \<in> set (snd b')"
    by (auto simp: all_alerts_def)
  from sweep_frame [OF assms(1)] have "list_all2 bucket_evolves (alerts s) (alerts s')" by simp
  then have l: "list_all2 bucket_evolves (alerts s) (alerts s')" .
  from b'(1) obtain n where n: "n < length (alerts s')" "alerts s' ! n = b'"
    by (auto simp: in_set_conv_nth)
  from l n have "bucket_evolves (alerts s ! n) b'" "n < length (alerts s)"
    by (auto dest: list_all2_nthD2 list_all2_lengthD)
  then obtain b where b: "b \<in> set (alerts s)" "bucket_evolves b b'"
    using nth_mem by blast
  with b'(2) obtain a where "a \<in> set (snd b)" "evolves a a'"
    by (auto simp: bucket_evolves_def list_all_iff list_ex_iff)
  with b(1) show ?thesis by (auto simp: all_alerts_def)
qed

text \<open>
  C10. Whatever its outcome, a sweep keeps the keys of the store, the counter and the file
  name, and every alert a bucket holds afterwards is an alert the same bucket held before,
  unchanged or with \<open>triggered\<close> set from false to true: its id, owner, symbol, condition,
  threshold and creation date are as before. \<^verbatim>\<open>remove_alert\<close> leaves the counter as it is.
\<close>

theorem check_alerts_frame:
  assumes "check_alerts f t src s reqs = (s', reqs', out)"
  shows "list_all2 bucket_evolves (alerts s) (alerts s') \<and> next_id s' = next_id s \<and>
         storage_file s' = storage_file s \<and> next_id (fst (remove_alert s uid i)) = next_id s"
proof -
  have "next_id (fst (remove_alert s uid i)) = next_id s"
    by (simp add: remove_alert_def split: option.splits)
  with sweep_frame [OF assms] show ?thesis by simp
qed

subsection \<open>Requests\<close>

text \<open>
  C8. The requests a sweep adds to those made before are the symbols of the alerts that
  are not triggered, over all owners, each once. When there is no such symbol the sweep
  makes no request, returns the empty list and leaves the store as it is.
\<close>

theorem sweep_requests_pending_symbols_once:
  assumes "check_alerts f t src s reqs = (s', reqs', out)"
  shows "\<exists>cs. reqs' = reqs @ cs \<and> distinct cs \<and>
           set cs = coin ` {a \<in> set (all_alerts (alerts s)). \<not> triggered a} \<and>
           (cs = [] \<longrightarrow> out = Inr [] \<and> s' = s \<and> reqs' = reqs)"
proof -
  let ?cs = "coins_to_check (alerts s)"
  have "reqs' = reqs @ ?cs" using assms by (rule check_alerts_requests)
  moreover have "distinct ?cs" by (rule distinct_coins_to_check)
  moreover have "set ?cs = coin ` {a \<in> set (all_alerts (alerts s)). \<not> triggered a}"
    by (simp add: set_coins_to_check pending_coins_def)
  moreover have "out = Inr [] \<and> s' = s \<and> reqs' = reqs" if "?cs = []"
    using that assms by (simp add: check_alerts_nothing_pending)
  ultimately show ?thesis by blast
qed

subsection \<open>Evaluation\<close>

lemma cleanup_buckets_filtered:
  "cleanup_buckets f t al = (al', r) \<Longrightarrow> list_all2 (bucket_filtered f t) al al'"
proof (induction al arbitrary: al' r)
  case Nil
  then show ?case by simp
next
  case (Cons b al)
  obtain k xs where b: "b = (k, xs)" by (cases b)
  have same: "list_all2 (bucket_filtered f t) zs zs" for zs
    by (rule list_all2_refl) (simp add: bucket_filtered_def)
  show ?case
  proof (cases "filter_bucket f t xs")
    case (Inl e)
    with Cons.prems b have "al' = b # al" by simp
    then show ?thesis using same [of "b # al"] by simp
  next
    case (Inr ys)
    obtain rest' r' where c: "cleanup_buckets f t al = (rest', r')"
      by (cases "cleanup_buckets f t al")
    with Cons.prems b Inr have al': "al' = (k, ys) # rest'" by simp
    from filter_bucket_Inr [OF Inr] have "bucket_filtered f t (k, xs) (k, ys)"
      by (simp add: bucket_filtered_def)
    with Cons.IH [OF c] show ?thesis by (simp add: al' b)
  qed
qed

lemma check_alerts_store_filtered:
  assumes "check_alerts f t src s reqs = (s', reqs', out)"
  shows "\<exists>al. list_all2 (bucket_filtered f t)
                 (fst (check_buckets (observed_prices src s reqs) (alerts s))) al \<and>
              s' = s\<lparr>alerts := al\<rparr>"
proof -
  let ?cb = "check_buckets (observed_prices src s reqs) (alerts s)"
  have same: "list_all2 (bucket_filtered f t) zs zs" for zs
    by (rule list_all2_refl) (simp add: bucket_filtered_def)
  show ?thesis
  proof (cases "coins_to_check (alerts s) = []")
    case True
    then have "pending_coins (alerts s) = {}"
      using set_coins_to_check [of "alerts s"] by simp
    then have "?cb = (alerts s, [])" by (rule check_buckets_none_pending)
    moreover from True assms have "s' = s" by (simp add: check_alerts_nothing_pending)
    ultimately have "list_all2 (bucket_filtered f t) (fst ?cb) (alerts s) \<and> s' = s\<lparr>alerts := alerts s\<rparr>"
      by (simp add: same)
    then show ?thesis by blast
  next
    case False
    show ?thesis
    proof (cases "snd ?cb = []")
      case True
      with False assms have "s' = s\<lparr>alerts := fst ?cb\<rparr>"
        by (simp add: check_alerts_pending Let_def)
      with same [of "fst ?cb"] show ?thesis by blast
    next
      case nonempty: False
      let ?s1 = "s\<lparr>alerts := fst ?cb\<rparr>"
      obtain al r where c: "cleanup_buckets f t (fst ?cb) = (al, r)"
        by (cases "cleanup_buckets f t (fst ?cb)")
      then have "fst (cleanup_triggered_alerts f t ?s1) = s\<lparr>alerts := al\<rparr>"
        by (simp add: cleanup_triggered_alerts_def)
      with False nonempty assms have "s' = s\<lparr>alerts := al\<rparr>"
        by (auto simp: check_alerts_pending Let_def split: option.splits)
      with cleanup_buckets_filtered [OF c] show ?thesis by blast
    qed
  qed
qed

lemma bucket_after_sweep:
  assumes "check_alerts f t src s reqs = (s', reqs', out)" and "(k, xs) \<in> set (alerts s)"
  shows "\<exists>ys. (k, ys) \<in> set (alerts s') \<and>
           (ys = map (\<lambda>a. fst (check_alert (observed_prices src s reqs) a)) xs \<or>
            ys = filter (\<lambda>a. keep_alert f t a = Inr True)
                   (map (\<lambda>a. fst (check_alert (observed_prices src s reqs) a)) xs))"
proof -
  let ?prices = "observed_prices src s reqs"
  let ?g = "\<lambda>a. fst (check_alert ?prices a)"
  from check_alerts_store_filtered [OF assms(1)] obtain al where
    fl: "list_all2 (bucket_filtered f t) (fst (check_buckets ?prices (alerts s))) al"
    and s': "s' = s\<lparr>alerts := al\<rparr>"
    by blast
  from assms(2) obtain n where n: "n < length (alerts s)" "alerts s ! n = (k, xs)"
    by (auto simp: in_set_conv_nth)
  have c: "fst (check_buckets ?prices (alerts s)) ! n = (k, map ?g xs)"
    using n by (simp add: check_buckets_eq)
  have len: "length al = length (alerts s)"
    using fl by (auto dest: list_all2_lengthD simp: check_buckets_eq)
  have "n < length (fst (check_buckets ?prices (alerts s)))"
    using n(1) by (simp add: check_buckets_eq)
  with fl have "bucket_filtered f t (fst (check_buckets ?prices (alerts s)) ! n) (al ! n)"
    by (rule list_all2_nthD)
  with c have k: "fst (al ! n) = k"
    "snd (al ! n) = map ?g xs \<or> snd (al ! n) = filter (\<lambda>a. keep_alert f t a = Inr True) (map ?g xs)"
    by (simp_all add: bucket_filtered_def)
  have "(k, snd (al ! n)) \<in> set al"
    using k(1) n(1) len by (metis nth_mem prod.collapse)
  with k(2) s' show ?thesis by auto
qed

lemma stored_after_sweep:
  assumes "check_alerts f t src s reqs = (s', reqs', out)" and "a' \<in> set (all_alerts (alerts s'))"
  shows "\<exists>b \<in> set (all_alerts (alerts s)). a' = fst (check_alert (observed_prices src s reqs) b)"
proof -
  let ?prices = "observed_prices src s reqs"
  let ?g = "\<lambda>a. fst (check_alert ?prices a)"
  from check_alerts_store [OF assms(1)] obtain al where
    kept: "list_all2 bucket_kept (fst (check_buckets ?prices (alerts s))) al" and s': "s' = s\<lparr>alerts := al\<rparr>"
    by blast
  from assms(2) s' obtain b' where b': "b' \<in> set al" "a' \<in> set (snd b')"
    by (auto simp: all_alerts_def)
  from b'(1) obtain n where n: "n < length al" "al ! n = b'"
    by (auto simp: in_set_conv_nth)
  from kept n have "bucket_kept (fst (check_buckets ?prices (alerts s)) ! n) b'"
    "n < length (fst (check_buckets ?prices (alerts s)))"
    by (auto dest: list_all2_nthD2 list_all2_lengthD)
  then have "n < length (alerts s)"
    "set (snd b') \<subseteq> set (map ?g (snd (alerts s ! n)))"
    by (simp_all add: check_buckets_eq bucket_kept_def split_beta)
  with b'(2) obtain b where "b \<in> set (snd (alerts s ! n))" "a' = ?g b" by auto
  moreover from this \<open>n < length (alerts s)\<close> have "b \<in> set (all_alerts (alerts s))"
    by (auto simp: all_alerts_def)
  ultimately show ?thesis by blast
qed

lemma fst_check_alert:
  "fst (check_alert prices a) =
     (if \<not> triggered a \<and> price_of prices (coin a) > 0 \<and> condition_met a (price_of prices (coin a))
      then a\<lparr>triggered := True\<rparr> else a)"
  by (simp add: check_alert_def price_of_def Let_def)

lemma marked_differs: "\<not> triggered a \<Longrightarrow> a\<lparr>triggered := True\<rparr> \<noteq> a"
  by (auto dest: arg_cong [where f = triggered])

lemma unmarked_gone_iff:
  assumes "check_alerts f t src s reqs = (s', reqs', out)"
    and "(k, xs) \<in> set (alerts s)" and "a \<in> set xs" and "\<not> triggered a"
    and "price_of (observed_prices src s reqs) (coin a) = p" and "p > 0"
  shows "a \<notin> set (all_alerts (alerts s')) \<longleftrightarrow> condition_met a p"
proof
  assume gone: "a \<notin> set (all_alerts (alerts s'))"
  show "condition_met a p"
  proof (rule ccontr)
    assume "\<not> condition_met a p"
    with assms(5) have g: "fst (check_alert (observed_prices src s reqs) a) = a"
      by (simp add: fst_check_alert)
    from bucket_after_sweep [OF assms(1,2)] obtain ys where
      ys: "(k, ys) \<in> set (alerts s')"
      "ys = map (\<lambda>a. fst (check_alert (observed_prices src s reqs) a)) xs \<or>
       ys = filter (\<lambda>a. keep_alert f t a = Inr True)
              (map (\<lambda>a. fst (check_alert (observed_prices src s reqs) a)) xs)"
      by blast
    from assms(3) g have "a \<in> set (map (\<lambda>a. fst (check_alert (observed_prices src s reqs) a)) xs)"
      by force
    with ys(2) assms(4) have "a \<in> set ys" by (auto simp: keep_alert_pending)
    with ys(1) have "a \<in> set (all_alerts (alerts s'))" by (force simp: all_alerts_def)
    with gone show False by simp
  qed
next
  assume met: "condition_met a p"
  show "a \<notin> set (all_alerts (alerts s'))"
  proof
    assume "a \<in> set (all_alerts (alerts s'))"
    from stored_after_sweep [OF assms(1) this] obtain b where
      b: "a = fst (check_alert (observed_prices src s reqs) b)" by blast
    show False
    proof (cases "fst (check_alert (observed_prices src s reqs) b) = b")
      case True
      with b have "b = a" by simp
      with True assms(4,5,6) met show False
        using marked_differs [of a] by (simp add: fst_check_alert split: if_splits)
    next
      case False
      then have "fst (check_alert (observed_prices src s reqs) b) = b\<lparr>triggered := True\<rparr>"
        by (simp add: fst_check_alert split: if_splits)
      with b assms(4) show False by simp
    qed
  qed
qed

lemma outcome_stays_in_bucket:
  assumes "check_alerts f t src s reqs = (s', reqs', out)"
    and "(k, xs) \<in> set (alerts s)" and "a \<in> set xs"
    and "keep_alert f t (fst (check_alert (observed_prices src s reqs) a)) = Inr True"
  shows "\<exists>ys. (k, ys) \<in> set (alerts s') \<and> fst (check_alert (observed_prices src s reqs) a) \<in> set ys"
proof -
  from bucket_after_sweep [OF assms(1,2)] obtain ys where
    ys: "(k, ys) \<in> set (alerts s')"
    "ys = map (\<lambda>a. fst (check_alert (observed_prices src s reqs) a)) xs \<or>
     ys = filter (\<lambda>a. keep_alert f t a = Inr True)
            (map (\<lambda>a. fst (check_alert (observed_prices src s reqs) a)) xs)"
    by blast
  from assms(3) have "fst (check_alert (observed_prices src s reqs) a)
      \<in> set (map (\<lambda>a. fst (check_alert (observed_prices src s reqs) a)) xs)" by force
  with ys(2) assms(4) have "fst (check_alert (observed_prices src s reqs) a) \<in> set ys" by auto
  with ys(1) show ?thesis by blast
qed

lemma reported_iff_condition_met:
  assumes "check_alerts f t src s reqs = (s', reqs', Inr res)"
    and "a \<in> set (all_alerts (alerts s))" and "\<not> triggered a"
    and "price_of (observed_prices src s reqs) (coin a) = p" and "p > 0"
  shows "(a\<lparr>triggered := True\<rparr>, p) \<in> set res \<longleftrightarrow> condition_met a p"
proof
  let ?prices = "observed_prices src s reqs"
  have res: "res = snd (check_buckets ?prices (alerts s))"
    using assms(1) by (rule check_alerts_returned)
  {
    assume "(a\<lparr>triggered := True\<rparr>, p) \<in> set res"
    then obtain b where b: "b \<in> set (all_alerts (alerts s))" "\<not> triggered b"
      "a\<lparr>triggered := True\<rparr> = b\<lparr>triggered := True\<rparr>" "condition_met b p"
      unfolding res in_check_buckets by blast
    from b(3) have "condition a = condition b" "price a = price b"
      by (metis alert.select_convs(4) alert.surjective alert.update_convs(7),
          metis alert.select_convs(5) alert.surjective alert.update_convs(7))
    with b(4) show "condition_met a p" by (auto simp: condition_met_def split: if_splits)
  }
  {
    assume "condition_met a p"
    with assms(2,3,4,5) show "(a\<lparr>triggered := True\<rparr>, p) \<in> set res"
      unfolding res in_check_buckets by blast
  }
qed

text \<open>
  C7. Take an alert that is stored and not triggered, whose symbol has an observed price
  above zero. The sweep marks it, so that the unmarked alert is no longer stored, exactly
  when the price is at least the threshold (condition \<^verbatim>\<open>above\<close>) or at most the threshold
  (condition \<^verbatim>\<open>below\<close>); at a price equal to the threshold it is marked under either
  condition. The marked alert is then in the same bucket, provided the cleanup keeps it;
  an alert whose condition is not met stays in its bucket as it was. When the sweep
  returns, the alert with its price is in the returned list under exactly the same
  conditions.
\<close>

theorem trigger_boundary_inclusive:
  assumes "check_alerts f t src s reqs = (s', reqs', out)"
    and "(k, xs) \<in> set (alerts s)" and "a \<in> set xs" and "\<not> triggered a"
    and "observed_prices src s reqs (coin a) = Some p" and "p > 0"
  shows "(condition a = ''above'' \<longrightarrow> (a \<notin> set (all_alerts (alerts s')) \<longleftrightarrow> p \<ge> price a)) \<and>
         (condition a = ''below'' \<longrightarrow> (a \<notin> set (all_alerts (alerts s')) \<longleftrightarrow> p \<le> price a)) \<and>
         ((condition a = ''above'' \<or> condition a = ''below'') \<and> p = price a \<longrightarrow>
            a \<notin> set (all_alerts (alerts s'))) \<and>
         (condition_met a p \<and> keep_alert f t (a\<lparr>triggered := True\<rparr>) = Inr True \<longrightarrow>
            (\<exists>ys. (k, ys) \<in> set (alerts s') \<and> a\<lparr>triggered := True\<rparr> \<in> set ys)) \<and>
         (\<not> condition_met a p \<longrightarrow> (\<exists>ys. (k, ys) \<in> set (alerts s') \<and> a \<in> set ys)) \<and>
         (\<forall>res. out = Inr res \<longrightarrow>
            (condition a = ''above'' \<longrightarrow> ((a\<lparr>triggered := True\<rparr>, p) \<in> set res \<longleftrightarrow> p \<ge> price a)) \<and>
            (condition a = ''below'' \<longrightarrow> ((a\<lparr>triggered := True\<rparr>, p) \<in> set res \<longleftrightarrow> p \<le> price a)) \<and>
            ((condition a = ''above'' \<or> condition a = ''below'') \<and> p = price a \<longrightarrow>
               (a\<lparr>triggered := True\<rparr>, p) \<in> set res))"
proof -
  let ?prices = "observed_prices src s reqs"
  have p: "price_of ?prices (coin a) = p" using assms(5) by (simp add: price_of_def)
  from assms(2,3) have a: "a \<in> set (all_alerts (alerts s))"
    by (force simp: all_alerts_def)
  have gone: "a \<notin> set (all_alerts (alerts s')) \<longleftrightarrow> condition_met a p"
    using assms(1-4) p assms(6) by (rule unmarked_gone_iff)
  have marked: "\<exists>ys. (k, ys) \<in> set (alerts s') \<and> a\<lparr>triggered := True\<rparr> \<in> set ys"
    if "condition_met a p" "keep_alert f t (a\<lparr>triggered := True\<rparr>) = Inr True"
  proof -
    from that(1) assms(4,6) p have g: "fst (check_alert ?prices a) = a\<lparr>triggered := True\<rparr>"
      by (simp add: fst_check_alert)
    from outcome_stays_in_bucket [OF assms(1-3), unfolded g, OF that(2)] show ?thesis .
  qed
  have stays: "\<exists>ys. (k, ys) \<in> set (alerts s') \<and> a \<in> set ys" if "\<not> condition_met a p"
  proof -
    from that p have g: "fst (check_alert ?prices a) = a"
      by (simp add: fst_check_alert)
    have "keep_alert f t a = Inr True" using assms(4) by (rule keep_alert_pending)
    from outcome_stays_in_bucket [OF assms(1-3), unfolded g, OF this] show ?thesis .
  qed
  have rep: "(a\<lparr>triggered := True\<rparr>, p) \<in> set res \<longleftrightarrow> condition_met a p" if "out = Inr res" for res
    using assms(1) [unfolded that] a assms(4) p assms(6) by (rule reported_iff_condition_met)
  have above: "condition a = ''above'' \<Longrightarrow> condition_met a p \<longleftrightarrow> p \<ge> price a"
    and below: "condition a = ''below'' \<Longrightarrow> condition_met a p \<longleftrightarrow> p \<le> price a"
    by (auto simp: condition_met_def)
  from gone marked stays rep above below show ?thesis by (auto simp: condition_met_def)
qed

subsection \<open>Skipped alerts\<close>

lemma failed_request_gives_zero:
  assumes "a \<in> set (all_alerts (alerts s))" and "\<not> triggered a"
    and "src (reqs @ takeWhile (\<lambda>x. x \<noteq> coin a) (coins_to_check (alerts s))) (coin a) = None"
  shows "price_of (observed_prices src s reqs) (coin a) = 0"
proof -
  from assms(1,2) have "coin a \<in> set (coins_to_check (alerts s))"
    by (auto simp: set_coins_to_check pending_coins_def)
  from get_multiple_prices_asked [OF this distinct_coins_to_check, of src Map.empty reqs] assms(3)
  show ?thesis by (simp add: observed_prices_def price_of_def)
qed

lemma skipped_alert_stays:
  assumes "check_alerts f t src s reqs = (s', reqs', out)"
    and "(k, xs) \<in> set (alerts s)" and "a \<in> set xs" and "\<not> triggered a"
    and "price_of (observed_prices src s reqs) (coin a) \<le> 0"
  shows "\<exists>ys. (k, ys) \<in> set (alerts s') \<and> a \<in> set ys"
proof -
  let ?prices = "observed_prices src s reqs"
  let ?g = "\<lambda>a. fst (check_alert ?prices a)"
  from check_alerts_store [OF assms(1)] obtain al where
    kept: "list_all2 bucket_kept (fst (check_buckets ?prices (alerts s))) al" and s': "s' = s\<lparr>alerts := al\<rparr>"
    by blast
  from assms(2) obtain n where n: "n < length (alerts s)" "alerts s ! n = (k, xs)"
    by (auto simp: in_set_conv_nth)
  have c: "fst (check_buckets ?prices (alerts s)) ! n = (k, map ?g xs)"
    using n by (simp add: check_buckets_eq)
  have len: "length al = length (alerts s)"
    using kept by (auto dest: list_all2_lengthD simp: check_buckets_eq)
  have "n < length (fst (check_buckets ?prices (alerts s)))"
    using n(1) by (simp add: check_buckets_eq)
  with kept have "bucket_kept (fst (check_buckets ?prices (alerts s)) ! n) (al ! n)"
    by (rule list_all2_nthD)
  with c have k: "fst (al ! n) = k" "{b \<in> set (map ?g xs). \<not> triggered b} \<subseteq> set (snd (al ! n))"
    by (simp_all add: bucket_kept_def)
  from assms(4,5) have "?g a = a" by (simp add: check_alert_skipped)
  with assms(3,4) have "a \<in> {b \<in> set (map ?g xs). \<not> triggered b}" by force
  with k(2) have "a \<in> set (snd (al ! n))" by blast
  moreover have "(k, snd (al ! n)) \<in> set al"
    using k(1) n(1) len by (metis nth_mem prod.collapse)
  ultimately show ?thesis using s' by auto
qed

text \<open>
  C9. An alert that is not triggered and whose symbol has an observed price that is zero
  or negative, or whose request failed (the price is then 0), is still in its bucket after
  the sweep, unchanged, and no alert on its symbol is in the list the sweep returns. The
  sweep goes on with the other alerts: each alert that is not triggered, has a price above
  zero and meets its condition is in the returned list.
\<close>

theorem invalid_price_skips_alert:
  assumes "check_alerts f t src s reqs = (s', reqs', out)"
    and "(k, xs) \<in> set (alerts s)" and "a \<in> set xs" and "\<not> triggered a"
    and "price_of (observed_prices src s reqs) (coin a) \<le> 0 \<or>
         src (reqs @ takeWhile (\<lambda>x. x \<noteq> coin a) (coins_to_check (alerts s))) (coin a) = None"
  shows "(\<exists>ys. (k, ys) \<in> set (alerts s') \<and> a \<in> set ys) \<and>
         (\<forall>res. out = Inr res \<longrightarrow>
            (\<forall>e \<in> set res. coin (fst e) \<noteq> coin a) \<and>
            (\<forall>b \<in> set (all_alerts (alerts s)).
               \<not> triggered b \<and> price_of (observed_prices src s reqs) (coin b) > 0 \<and>
               condition_met b (price_of (observed_prices src s reqs) (coin b)) \<longrightarrow>
               (b\<lparr>triggered := True\<rparr>, price_of (observed_prices src s reqs) (coin b)) \<in> set res))"
proof -
  let ?prices = "observed_prices src s reqs"
  from assms(2,3) have a: "a \<in> set (all_alerts (alerts s))"
    by (force simp: all_alerts_def)
  from assms(5) have p: "price_of ?prices (coin a) \<le> 0"
    using failed_request_gives_zero [OF a assms(4)] by auto
  have stays: "\<exists>ys. (k, ys) \<in> set (alerts s') \<and> a \<in> set ys"
    using assms(1-4) p by (rule skipped_alert_stays)
  have "(\<forall>e \<in> set res. coin (fst e) \<noteq> coin a) \<and>
        (\<forall>b \<in> set (all_alerts (alerts s)).
           \<not> triggered b \<and> price_of ?prices (coin b) > 0 \<and>
           condition_met b (price_of ?prices (coin b)) \<longrightarrow>
           (b\<lparr>triggered := True\<rparr>, price_of ?prices (coin b)) \<in> set res)"
    if "out = Inr res" for res
  proof -
    from that assms(1) have res: "res = snd (check_buckets ?prices (alerts s))"
      by (simp add: check_alerts_returned)
    have "coin (fst e) \<noteq> coin a" if e: "e \<in> set res" for e
    proof
      assume same: "coin (fst e) = coin a"
      from e obtain b where "fst e = b\<lparr>triggered := True\<rparr>" "price_of ?prices (coin b) > 0"
        unfolding res using in_check_buckets [of "fst e" "snd e" ?prices "alerts s"] by auto
      with same p show False by simp
    qed
    moreover have "(b\<lparr>triggered := True\<rparr>, price_of ?prices (coin b)) \<in> set res"
      if "b \<in> set (all_alerts (alerts s))" "\<not> triggered b" "price_of ?prices (coin b) > 0"
        "condition_met b (price_of ?prices (coin b))" for b
      unfolding res in_check_buckets using that by blast
    ultimately show ?thesis by blast
  qed
  with stays show ?thesis by blast
qed

subsection \<open>Later sweeps\<close>

lemma untrigger_new: "\<not> triggered b \<Longrightarrow> b\<lparr>triggered := True\<rparr>\<lparr>triggered := False\<rparr> = b"
  by (cases b) simp

lemma sweep_reports_new_only:
  assumes "check_alerts f t src s reqs = (s', reqs', Inr res)" and "e \<in> set res"
  shows "triggered (fst e) \<and> (fst e)\<lparr>triggered := False\<rparr> \<in> set (all_alerts (alerts s)) \<and>
         \<not> triggered ((fst e)\<lparr>triggered := False\<rparr>)"
proof -
  have "(fst e, snd e) \<in> set (snd (check_buckets (observed_prices src s reqs) (alerts s)))"
    using check_alerts_returned [OF assms(1)] assms(2) by simp
  then obtain b where "b \<in> set (all_alerts (alerts s))" "\<not> triggered b" "fst e = b\<lparr>triggered := True\<rparr>"
    unfolding in_check_buckets by blast
  then show ?thesis by (simp add: untrigger_new)
qed

lemma run_sweeps_reports_new_only:
  assumes "(sb, Inr res) \<in> set (run_sweeps f src ts s reqs)"
    and "\<forall>b \<in> set (all_alerts (alerts s)). alert_id b = i \<longrightarrow> triggered b"
  shows "i \<notin> alert_id ` fst ` set res \<and>
         (\<forall>e \<in> set res. triggered (fst e) \<and> (fst e)\<lparr>triggered := False\<rparr> \<in> set (all_alerts (alerts sb)))"
  using assms
proof (induction ts arbitrary: s reqs)
  case Nil
  then show ?case by simp
next
  case (Cons t ts)
  obtain s' reqs' out where c: "check_alerts f t src s reqs = (s', reqs', out)"
    by (cases "check_alerts f t src s reqs")
  from Cons.prems(1) c consider
    (first) "sb = s" "out = Inr res" | (later) "(sb, Inr res) \<in> set (run_sweeps f src ts s' reqs')"
    by auto
  then show ?case
  proof cases
    case first
    with c have r: "check_alerts f t src s reqs = (s', reqs', Inr res)" by simp
    have "alert_id (fst e) \<noteq> i" if "e \<in> set res" for e
    proof -
      from sweep_reports_new_only [OF r that] Cons.prems(2)
      have "alert_id ((fst e)\<lparr>triggered := False\<rparr>) \<noteq> i" by blast
      then show ?thesis by simp
    qed
    moreover have "\<forall>e \<in> set res. triggered (fst e) \<and>
        (fst e)\<lparr>triggered := False\<rparr> \<in> set (all_alerts (alerts sb))"
      using sweep_reports_new_only [OF r] first(1) by blast
    ultimately show ?thesis by blast
  next
    case later
    have "\<forall>b \<in> set (all_alerts (alerts s')). alert_id b = i \<longrightarrow> triggered b"
    proof (intro ballI impI)
      fix b assume b: "b \<in> set (all_alerts (alerts s'))" "alert_id b = i"
      from sweep_frame_alerts [OF c b(1)] obtain a where
        a: "a \<in> set (all_alerts (alerts s))" "evolves a b" by blast
      from a(2) b(2) have "alert_id a = i" by (auto simp: evolves_def)
      with Cons.prems(2) a(1) have "triggered a" by blast
      with a(2) show "triggered b" by (auto simp: evolves_def)
    qed
    from Cons.IH [OF later this] show ?thesis .
  qed
qed

lemma check_alert_triggered: "triggered b \<Longrightarrow> snd (check_alert prices b) = []"
  by (simp add: check_alert_def)

lemma run_sweeps_result_shape:
  "(sb, Inr res) \<in> set (run_sweeps f src ts s reqs) \<Longrightarrow>
     \<exists>prices. res = concat (map (\<lambda>b. snd (check_alert prices b)) (all_alerts (alerts sb)))"
proof (induction ts arbitrary: s reqs)
  case Nil
  then show ?case by simp
next
  case (Cons t ts)
  obtain s' reqs' out where c: "check_alerts f t src s reqs = (s', reqs', out)"
    by (cases "check_alerts f t src s reqs")
  from Cons.prems c consider
    (first) "sb = s" "out = Inr res" | (later) "(sb, Inr res) \<in> set (run_sweeps f src ts s' reqs')"
    by auto
  then show ?case
  proof cases
    case first
    with c have "res = snd (check_buckets (observed_prices src s reqs) (alerts sb))"
      by (simp add: check_alerts_returned)
    then show ?thesis by (auto simp: check_buckets_eq)
  next
    case later
    then show ?thesis by (rule Cons.IH)
  qed
qed

text \<open>
  C3. Over a sequence of sweeps, whatever the prices are, the list a sweep returns is made
  of what each stored alert contributes, in order, and an alert that is triggered
  contributes nothing. Every alert a sweep returns carries \<open>triggered\<close> and was stored, not
  triggered, when that sweep started. So, in a store whose ids are distinct, the id of an
  alert that is triggered when the sequence starts is in the list returned by none of the
  sweeps.
\<close>

theorem triggered_alert_never_reported_again:
  assumes "(sb, Inr res) \<in> set (run_sweeps f src ts s reqs)"
  shows "(\<forall>a \<in> set (all_alerts (alerts s)).
            triggered a \<and> distinct (map alert_id (all_alerts (alerts s))) \<longrightarrow>
            alert_id a \<notin> alert_id ` fst ` set res) \<and>
         (\<forall>e \<in> set res. triggered (fst e) \<and>
            (fst e)\<lparr>triggered := False\<rparr> \<in> set (all_alerts (alerts sb))) \<and>
         (\<exists>prices. res = concat (map (\<lambda>b. snd (check_alert prices b)) (all_alerts (alerts sb)))) \<and>
         (\<forall>prices b. triggered b \<longrightarrow> snd (check_alert prices b) = [])"
proof -
  have "alert_id a \<notin> alert_id ` fst ` set res"
    if a: "a \<in> set (all_alerts (alerts s))" "triggered a"
      and d: "distinct (map alert_id (all_alerts (alerts s)))" for a
  proof -
    have "\<forall>b \<in> set (all_alerts (alerts s)). alert_id b = alert_id a \<longrightarrow> triggered b"
    proof (intro ballI impI)
      fix b assume "b \<in> set (all_alerts (alerts s))" "alert_id b = alert_id a"
      with a(1) d have "b = a" by (auto simp: distinct_map dest: inj_onD)
      with a(2) show "triggered b" by simp
    qed
    with assms show ?thesis by (rule run_sweeps_reports_new_only [THEN conjunct1])
  qed
  moreover from run_sweeps_result_shape [OF assms] obtain prices where
    shape: "res = concat (map (\<lambda>b. snd (check_alert prices b)) (all_alerts (alerts sb)))" by blast
  have "triggered (fst e) \<and> (fst e)\<lparr>triggered := False\<rparr> \<in> set (all_alerts (alerts sb))"
    if "e \<in> set res" for e
  proof -
    from that shape obtain b where
      b: "b \<in> set (all_alerts (alerts sb))" "(fst e, snd e) \<in> set (snd (check_alert prices b))"
      by auto
    from b(2) have "\<not> triggered b" "fst e = b\<lparr>triggered := True\<rparr>"
      unfolding in_check_alert by blast+
    with b(1) show ?thesis by (simp add: untrigger_new)
  qed
  ultimately show ?thesis using shape check_alert_triggered by blast
qed

subsection \<open>Runs of the examples\<close>

lemmas sweep_defs =
  check_alerts_def coins_to_check_def check_alert_def condition_met_def
  cleanup_triggered_alerts_def keep_alert_def example_clock_def btc_only_def
  btc_above_def btc_below_def eth_above_def btc_recent_def btc_high_def btc_rising_def

lemma two_owners_sweep:
  "check_alerts example_clock 600000000 (btc_only 50000) two_owners [] =
     (two_owners\<lparr>alerts := [(''1'', [btc_above\<lparr>triggered := True\<rparr>]),
                            (''2'', [btc_below\<lparr>triggered := True\<rparr>])]\<rparr>,
      [''BTC''],
      Inr [(btc_above\<lparr>triggered := True\<rparr>, 50000), (btc_below\<lparr>triggered := True\<rparr>, 50000)])"
  by (simp add: sweep_defs two_owners_def)

lemma mixed_store_sweep:
  "check_alerts example_clock 600000000 (btc_only 51000) mixed_store [] =
     (mixed_store\<lparr>alerts := [(''1'', [btc_above\<lparr>triggered := True\<rparr>, eth_above]),
                             (''2'', [btc_below])]\<rparr>,
      [''ETH'', ''BTC''],
      Inr [(btc_above\<lparr>triggered := True\<rparr>, 51000)])"
  by (simp add: sweep_defs mixed_store_def)

lemma stale_store_sweep:
  "check_alerts example_clock 90000000000 (btc_only 49000) stale_store [] =
     (stale_store\<lparr>alerts := [(''1'', [btc_above\<lparr>triggered := True\<rparr>,
                                     btc_recent\<lparr>triggered := True\<rparr>])]\<rparr>,
      [''BTC''],
      Inr [(btc_recent\<lparr>triggered := True\<rparr>, 49000)])"
  by (simp add: sweep_defs stale_store_def)

lemma keep_alert_past:
  "fromisoformat (created_at a) = Some c \<Longrightarrow> c \<le> current_time \<Longrightarrow>
     keep_alert fromisoformat current_time a = Inr True"
  by (simp add: keep_alert_def)

text \<open>
  C1. The cleanup compares \<^verbatim>\<open>created_at - current_time\<close> with 24 hours, so an alert
  created in the past is always kept. Here the sweep runs 25 hours after the triggered
  alert \<open>btc_above\<close> was created and triggers \<open>btc_recent\<close>, so the cleanup runs: the
  alert created 25 hours before is still stored.
\<close>

theorem stale_triggered_alert_survives:
  "check_alerts example_clock 90000000000 (btc_only 49000) stale_store [] =
     (stale_store\<lparr>alerts := [(''1'', [btc_above\<lparr>triggered := True\<rparr>,
                                     btc_recent\<lparr>triggered := True\<rparr>])]\<rparr>,
      [''BTC''],
      Inr [(btc_recent\<lparr>triggered := True\<rparr>, 49000)]) \<and>
   example_clock (created_at (btc_above\<lparr>triggered := True\<rparr>)) = Some 0 \<and>
   (90000000000 :: int) - 0 = 25 * 3600 * 1000000 \<and>
   triggered (btc_above\<lparr>triggered := True\<rparr>)"
  by (simp add: sweep_defs stale_store_def)

theorem check_alerts_frame_witness:
  "list_all2 bucket_evolves (alerts two_owners)
     [(''1'', [btc_above\<lparr>triggered := True\<rparr>]), (''2'', [btc_below\<lparr>triggered := True\<rparr>])] \<and>
   next_id (two_owners\<lparr>alerts := [(''1'', [btc_above\<lparr>triggered := True\<rparr>]),
                                   (''2'', [btc_below\<lparr>triggered := True\<rparr>])]\<rparr>) = 3 \<and>
   next_id (fst (remove_alert two_owners 1 1)) = 3"
  using check_alerts_frame [OF two_owners_sweep, of 1 1]
  by (simp add: two_owners_def)

theorem sweep_requests_pending_symbols_once_witness:
  "distinct [''ETH'', ''BTC''] \<and>
   set [''ETH'', ''BTC''] = coin ` {a \<in> set (all_alerts (alerts mixed_store)). \<not> triggered a}"
  using sweep_requests_pending_symbols_once [OF mixed_store_sweep]
  by simp

theorem trigger_boundary_inclusive_witness:
  "check_alerts example_clock 600000000 (btc_only 50000) two_owners [] =
     (two_owners\<lparr>alerts := [(''1'', [btc_above\<lparr>triggered := True\<rparr>]),
                            (''2'', [btc_below\<lparr>triggered := True\<rparr>])]\<rparr>,
      [''BTC''],
      Inr [(btc_above\<lparr>triggered := True\<rparr>, 50000), (btc_below\<lparr>triggered := True\<rparr>, 50000)]) \<and>
   observed_prices (btc_only 50000) two_owners [] (coin btc_above) = Some 50000 \<and>
   observed_prices (btc_only 50000) two_owners [] (coin btc_below) = Some 50000 \<and>
   condition btc_above = ''above'' \<and> price btc_above = 50000 \<and>
   condition btc_below = ''below'' \<and> price btc_below = 50000 \<and>
   btc_above \<notin> set (all_alerts (alerts (two_owners\<lparr>alerts :=
      [(''1'', [btc_above\<lparr>triggered := True\<rparr>]), (''2'', [btc_below\<lparr>triggered := True\<rparr>])]\<rparr>))) \<and>
   btc_below \<notin> set (all_alerts (alerts (two_owners\<lparr>alerts :=
      [(''1'', [btc_above\<lparr>triggered := True\<rparr>]), (''2'', [btc_below\<lparr>triggered := True\<rparr>])]\<rparr>))) \<and>
   check_alerts example_clock 600000000 (btc_only 51000) mixed_store [] =
     (mixed_store\<lparr>alerts := [(''1'', [btc_above\<lparr>triggered := True\<rparr>, eth_above]),
                             (''2'', [btc_below])]\<rparr>,
      [''ETH'', ''BTC''],
      Inr [(btc_above\<lparr>triggered := True\<rparr>, 51000)]) \<and>
   observed_prices (btc_only 51000) mixed_store [] (coin btc_below) = Some 51000 \<and>
   btc_below \<in> set (all_alerts (alerts (mixed_store\<lparr>alerts :=
      [(''1'', [btc_above\<lparr>triggered := True\<rparr>, eth_above]), (''2'', [btc_below])]\<rparr>)))"
proof -
  let ?s1 = "two_owners\<lparr>alerts :=
      [(''1'', [btc_above\<lparr>triggered := True\<rparr>]), (''2'', [btc_below\<lparr>triggered := True\<rparr>])]\<rparr>"
  let ?s2 = "mixed_store\<lparr>alerts :=
      [(''1'', [btc_above\<lparr>triggered := True\<rparr>, eth_above]), (''2'', [btc_below])]\<rparr>"
  have c: "condition btc_above = ''above''" "price btc_above = 50000"
    "condition btc_below = ''below''" "price btc_below = 50000"
    "\<not> triggered btc_above" "\<not> triggered btc_below"
    by (simp_all add: btc_above_def btc_below_def)
  have o: "observed_prices (btc_only 50000) two_owners [] (coin btc_above) = Some 50000"
    "observed_prices (btc_only 50000) two_owners [] (coin btc_below) = Some 50000"
    "observed_prices (btc_only 51000) mixed_store [] (coin btc_below) = Some 51000"
    by (simp_all add: observed_prices_def sweep_defs two_owners_def mixed_store_def)
  have m: "(''1'', [btc_above]) \<in> set (alerts two_owners)"
    "(''2'', [btc_below]) \<in> set (alerts two_owners)"
    "(''2'', [btc_below]) \<in> set (alerts mixed_store)"
    by (simp_all add: two_owners_def mixed_store_def)
  have e: "btc_above \<in> set [btc_above]" "btc_below \<in> set [btc_below]" by simp_all
  have p: "(0::real) < 50000" "(0::real) < 51000" by simp_all
  from trigger_boundary_inclusive [OF two_owners_sweep m(1) e(1) c(5) o(1) p(1)] c(1,2)
  have g1: "btc_above \<notin> set (all_alerts (alerts ?s1))" by simp
  from trigger_boundary_inclusive [OF two_owners_sweep m(2) e(2) c(6) o(2) p(1)] c(3,4)
  have g2: "btc_below \<notin> set (all_alerts (alerts ?s1))" by simp
  from trigger_boundary_inclusive [OF mixed_store_sweep m(3) e(2) c(6) o(3) p(2)] c(3,4)
  have g3: "btc_below \<in> set (all_alerts (alerts ?s2))" by simp
  from two_owners_sweep mixed_store_sweep o c(1-4) g1 g2 g3 show ?thesis by blast
qed

theorem invalid_price_skips_alert_witness:
  "btc_only 51000 ([] @ takeWhile (\<lambda>x. x \<noteq> coin eth_above) (coins_to_check (alerts mixed_store)))
     (coin eth_above) = None \<and>
   (\<exists>ys. (''1'', ys) \<in> set [(''1'', [btc_above\<lparr>triggered := True\<rparr>, eth_above]), (''2'', [btc_below])] \<and>
      eth_above \<in> set ys) \<and>
   coin (fst (btc_above\<lparr>triggered := True\<rparr>, 51000 :: real)) \<noteq> coin eth_above"
proof -
  have m: "(''1'', [btc_above, eth_above]) \<in> set (alerts mixed_store)"
    by (simp add: mixed_store_def)
  have e: "eth_above \<in> set [btc_above, eth_above]" "\<not> triggered eth_above"
    by (simp_all add: eth_above_def)
  have n: "btc_only 51000 ([] @ takeWhile (\<lambda>x. x \<noteq> coin eth_above) (coins_to_check (alerts mixed_store)))
     (coin eth_above) = None"
    by (simp add: btc_only_def eth_above_def)
  from invalid_price_skips_alert [OF mixed_store_sweep m e disjI2 [OF n]] n
  show ?thesis by simp
qed

lemma staged_store_sweeps:
  "run_sweeps example_clock btc_rising [90000000000, 90060000000] staged_store [] =
     [(staged_store, Inr [(btc_recent\<lparr>triggered := True\<rparr>, 49000)]),
      (staged_store\<lparr>alerts := [(''1'', [btc_above\<lparr>triggered := True\<rparr>,
                                      btc_recent\<lparr>triggered := True\<rparr>]), (''2'', [btc_high])]\<rparr>,
       Inr [(btc_high\<lparr>triggered := True\<rparr>, 52000)])]"
  by (simp add: sweep_defs staged_store_def)

theorem triggered_alert_never_reported_again_witness:
  "distinct (map alert_id (all_alerts (alerts staged_store))) \<and>
   btc_above\<lparr>triggered := True\<rparr> \<in> set (all_alerts (alerts staged_store)) \<and>
   condition_met btc_above 52000 \<and>
   (staged_store\<lparr>alerts := [(''1'', [btc_above\<lparr>triggered := True\<rparr>,
                                    btc_recent\<lparr>triggered := True\<rparr>]), (''2'', [btc_high])]\<rparr>,
    Inr [(btc_high\<lparr>triggered := True\<rparr>, 52000)])
     \<in> set (run_sweeps example_clock btc_rising [90000000000, 90060000000] staged_store []) \<and>
   alert_id (btc_above\<lparr>triggered := True\<rparr>)
     \<notin> alert_id ` fst ` set [(btc_high\<lparr>triggered := True\<rparr>, 52000 :: real)]"
proof -
  have d: "distinct (map alert_id (all_alerts (alerts staged_store)))"
    by (simp add: staged_store_def all_alerts_def btc_above_def btc_recent_def btc_high_def)
  have m: "btc_above\<lparr>triggered := True\<rparr> \<in> set (all_alerts (alerts staged_store))"
    by (simp add: staged_store_def all_alerts_def)
  have t: "triggered (btc_above\<lparr>triggered := True\<rparr>)" by simp
  have c: "condition_met btc_above 52000"
    by (simp add: condition_met_def btc_above_def)
  have i: "(staged_store\<lparr>alerts := [(''1'', [btc_above\<lparr>triggered := True\<rparr>,
                                    btc_recent\<lparr>triggered := True\<rparr>]), (''2'', [btc_high])]\<rparr>,
    Inr [(btc_high\<lparr>triggered := True\<rparr>, 52000)])
     \<in> set (run_sweeps example_clock btc_rising [90000000000, 90060000000] staged_store [])"
    unfolding staged_store_sweeps by simp
  from triggered_alert_never_reported_again [OF i]
  have "\<forall>a \<in> set (all_alerts (alerts staged_store)).
          triggered a \<and> distinct (map alert_id (all_alerts (alerts staged_store))) \<longrightarrow>
          alert_id a \<notin> alert_id ` fst ` set [(btc_high\<lparr>triggered := True\<rparr>, 52000 :: real)]"
    by (rule conjunct1)
  with m t d
  have n: "alert_id (btc_above\<lparr>triggered := True\<rparr>)
     \<notin> alert_id ` fst ` set [(btc_high\<lparr>triggered := True\<rparr>, 52000 :: real)]"
    by blast
  from d m c i n show ?thesis by blast
qed

end
